theory Spec2Isabelle
  imports Main "HOL-Library.Word"
begin

unbundle bit_operations_syntax

section \<open>Bytes, slices and run-time panics\<close>

text \<open>
  A Go \<^verbatim>\<open>byte\<close> is an 8-bit word, a \<^verbatim>\<open>[]byte\<close> or a fixed-size byte array is a list of
  them, and a Go \<^verbatim>\<open>string\<close> is a list of 8-bit characters. Arbitrary-precision integers
  (\<^verbatim>\<open>big.Int\<close>) are modelled by \<open>int\<close>. A Go \<^verbatim>\<open>int\<close> is modelled by \<open>int\<close> too, with the
  64-bit wrap-around written out on every sum and product that can leave the range (\<open>int64\<close>
  in the password-based derivation). Operations that Go checks at run time (indexing, slicing,
  allocating, a failing read of the random source) return a \<open>panic\<close> on the left of a sum.
\<close>

type_synonym byte = "8 word"

datatype panic = IndexOutOfRange | SliceBoundsOutOfRange | MakeSliceOutOfRange | RandReadFailed

definition pbind :: "panic + 'a \<Rightarrow> ('a \<Rightarrow> panic + 'b) \<Rightarrow> panic + 'b" where
  "pbind m f = (case m of Inl e \<Rightarrow> Inl e | Inr x \<Rightarrow> f x)"

definition index_at :: "'a list \<Rightarrow> int \<Rightarrow> panic + 'a" where
  \<comment> \<open>\<^verbatim>\<open>s[i]\<close>\<close>
  "index_at s i = (if 0 \<le> i \<and> i < int (length s) then Inr (s ! nat i) else Inl IndexOutOfRange)"

definition go_slice :: "'a list \<Rightarrow> int \<Rightarrow> int \<Rightarrow> panic + 'a list" where
  \<comment> \<open>\<^verbatim>\<open>s[lo:hi]\<close> on a slice whose capacity is its length\<close>
  "go_slice s lo hi =
     (if 0 \<le> lo \<and> lo \<le> hi \<and> hi \<le> int (length s)
      then Inr (take (nat (hi - lo)) (drop (nat lo) s))
      else Inl SliceBoundsOutOfRange)"

definition copy_bytes :: "'a list \<Rightarrow> 'a list \<Rightarrow> 'a list" where
  \<comment> \<open>the contents of \<^verbatim>\<open>dst\<close> after \<^verbatim>\<open>copy(dst, src)\<close>: the first
      \<^verbatim>\<open>min(len(dst), len(src))\<close> elements are overwritten\<close>
  "copy_bytes dst src = take (length dst) src @ drop (length src) dst"

definition go_div :: "int \<Rightarrow> int \<Rightarrow> int" where
  \<comment> \<open>Go's integer division truncates towards zero\<close>
  "go_div a b = sgn a * sgn b * (\<bar>a\<bar> div \<bar>b\<bar>)"

definition xor_parity :: "byte list \<Rightarrow> byte" where
  \<comment> \<open>\<^verbatim>\<open>var parity byte; for _, b := range bs { parity ^= b }\<close>\<close>
  "xor_parity bs = fold (\<lambda>b parity. parity XOR b) bs 0"

section \<open>The base58 package used by the recovery-key codec\<close>

text \<open>
  Modelled from the spec: the repository imports \<^verbatim>\<open>github.com/btcsuite/btcutil/base58\<close>, whose
  source is not part of it. The spec asks for "standard base58 semantics" (output length varies
  with leading zero bytes) over the 58-symbol alphabet without the visually ambiguous characters.
  The definitions below follow that package's \<^verbatim>\<open>Encode\<close> and \<^verbatim>\<open>Decode\<close>: the input bytes are
  read as one big-endian number, divided down by 58, every leading zero byte becomes the symbol
  \<^verbatim>\<open>1\<close>, and \<^verbatim>\<open>Decode\<close> returns the empty slice on a character outside the alphabet.
\<close>

definition alphabet :: string where
  "alphabet = ''123456789ABCDEFGHJKLMNPQRSTUVWXYZabcdefghijkmnopqrstuvwxyz''"

definition alphabetIdx0 :: char where
  "alphabetIdx0 = CHR ''1''"

fun b58_lookup :: "char \<Rightarrow> string \<Rightarrow> int \<Rightarrow> int" where
  "b58_lookup c [] i = 255"
| "b58_lookup c (a # as) i = (if c = a then i else b58_lookup c as (i + 1))"

definition b58 :: "char \<Rightarrow> int" where
  \<comment> \<open>the 256-entry table: index in the alphabet, 255 for every other byte\<close>
  "b58 c = b58_lookup c alphabet 0"

definition SetBytes :: "byte list \<Rightarrow> int" where
  \<comment> \<open>\<^verbatim>\<open>big.Int.SetBytes\<close>: the bytes as a big-endian unsigned integer\<close>
  "SetBytes b = foldl (\<lambda>x c. x * 256 + uint c) 0 b"

function Bytes_loop :: "int \<Rightarrow> byte list \<Rightarrow> byte list" where
  [simp del]: "Bytes_loop x acc =
     (if x > 0 then Bytes_loop (x div 256) (word_of_int (x mod 256) # acc) else acc)"
  by pat_completeness auto
termination
  by (relation "measure (\<lambda>(x, _). nat x)") auto

definition Bytes :: "int \<Rightarrow> byte list" where
  \<comment> \<open>\<^verbatim>\<open>big.Int.Bytes\<close>: the big-endian bytes without leading zeros, empty for 0\<close>
  "Bytes x = Bytes_loop x []"

function encode_loop :: "int \<Rightarrow> string \<Rightarrow> string" where
  [simp del]: "encode_loop x answer =
     (if x > 0 then encode_loop (x div 58) (answer @ [alphabet ! nat (x mod 58)]) else answer)"
  by pat_completeness auto
termination
  by (relation "measure (\<lambda>(x, _). nat x)") auto

fun leading_zero_bytes :: "byte list \<Rightarrow> string \<Rightarrow> string" where
  "leading_zero_bytes [] answer = answer"
| "leading_zero_bytes (i # b) answer =
     (if i \<noteq> 0 then answer else leading_zero_bytes b (answer @ [alphabetIdx0]))"

definition base58_Encode :: "byte list \<Rightarrow> string" where
  "base58_Encode b = rev (leading_zero_bytes b (encode_loop (SetBytes b) []))"

fun decode_loop :: "string \<Rightarrow> int \<Rightarrow> int \<Rightarrow> int option" where
  \<comment> \<open>runs over the characters from the last to the first; \<open>None\<close> at an invalid one\<close>
  "decode_loop [] answer j = Some answer"
| "decode_loop (c # cs) answer j =
     (let tmp = b58 c in
      if tmp = 255 then None else decode_loop cs (answer + j * tmp) (j * 58))"

fun numZeros :: "string \<Rightarrow> nat" where
  "numZeros [] = 0"
| "numZeros (c # cs) = (if c \<noteq> alphabetIdx0 then 0 else Suc (numZeros cs))"

definition base58_Decode :: "string \<Rightarrow> byte list" where
  "base58_Decode b =
     (case decode_loop (rev b) 0 1 of
        None \<Rightarrow> []
      | Some answer \<Rightarrow> replicate (numZeros b) 0 @ Bytes answer)"

section \<open>Recovery-key codec\<close>

definition AESCTRKeyLength :: int where
  "AESCTRKeyLength = 32"

definition AESCTRIVLength :: int where
  "AESCTRIVLength = 16"

definition strip_spaces :: "string \<Rightarrow> string" where
  \<comment> \<open>\<^verbatim>\<open>strings.ReplaceAll(recoveryKey, " ", "")\<close>\<close>
  "strip_spaces s = filter (\<lambda>c. c \<noteq> CHR '' '') s"

definition DecodeBase58RecoveryKey :: "string \<Rightarrow> panic + byte list option" where
  \<comment> \<open>\<open>Inr None\<close> is the \<^verbatim>\<open>nil\<close> result\<close>
  "DecodeBase58RecoveryKey recoveryKey =
     (let noSpaces = strip_spaces recoveryKey;
          decoded = base58_Decode noSpaces
      in if int (length decoded) \<noteq> AESCTRKeyLength + 3 then Inr None
         else
           pbind (go_slice decoded 0 34) (\<lambda>pre.
           let parity = xor_parity pre in
           pbind (index_at decoded 34) (\<lambda>d34.
           pbind (index_at decoded 0) (\<lambda>d0.
           pbind (index_at decoded 1) (\<lambda>d1.
           if parity \<noteq> d34 \<or> d0 \<noteq> 0x8B \<or> d1 \<noteq> 1 then Inr None
           else pbind (go_slice decoded 2 34) (\<lambda>r. Inr (Some r)))))))"

definition recovery_payload :: "byte list \<Rightarrow> byte list" where
  \<comment> \<open>the array \<^verbatim>\<open>inputBytes\<close> handed to \<^verbatim>\<open>base58.Encode\<close>\<close>
  "recovery_payload key =
     (let inputBytes0 = replicate 35 (0 :: byte);
          inputBytes1 = take 2 inputBytes0
                        @ copy_bytes (take 32 (drop 2 inputBytes0)) key
                        @ drop 34 inputBytes0;
          inputBytes2 = inputBytes1[0 := 0x8B];
          inputBytes3 = inputBytes2[1 := 1];
          parity = xor_parity (take 34 inputBytes3)
      in inputBytes3[34 := parity])"

fun space_loop :: "nat \<Rightarrow> string \<Rightarrow> string \<Rightarrow> string" where
  \<comment> \<open>\<^verbatim>\<open>for i, c := range recoveryKey\<close>; the base58 text is ASCII, so \<open>i\<close> counts characters\<close>
  "space_loop i [] spacedKey = spacedKey"
| "space_loop i (c # cs) spacedKey =
     space_loop (Suc i) cs
       ((if i > 0 \<and> i mod 4 = 0 then spacedKey @ '' '' else spacedKey) @ [c])"

definition EncodeBase58RecoveryKey :: "byte list \<Rightarrow> string" where
  "EncodeBase58RecoveryKey key =
     (let recoveryKey = base58_Encode (recovery_payload key)
      in space_loop 0 recoveryKey [])"

text \<open>
  The encoder once more, with every access to the array \<^verbatim>\<open>inputBytes\<close> and to \<^verbatim>\<open>key\<close> written
  as the operation Go checks at run time: the slices \<^verbatim>\<open>inputBytes[2:34]\<close>, \<^verbatim>\<open>key[:]\<close>,
  \<^verbatim>\<open>inputBytes[:34]\<close> and \<^verbatim>\<open>inputBytes[:]\<close>, and the stores to the indices 0, 1 and 34. A
  failing access is a panic on the left of the sum.
\<close>

definition store_at :: "'a list \<Rightarrow> int \<Rightarrow> 'a \<Rightarrow> panic + 'a list" where
  \<comment> \<open>\<^verbatim>\<open>s[i] = v\<close>\<close>
  "store_at s i v =
     (if 0 \<le> i \<and> i < int (length s) then Inr (s[nat i := v]) else Inl IndexOutOfRange)"

definition recovery_payload_checked :: "byte list \<Rightarrow> panic + byte list" where
  "recovery_payload_checked key =
     (let inputBytes0 = replicate 35 (0 :: byte) in
      pbind (go_slice inputBytes0 2 34) (\<lambda>dst.
      pbind (go_slice key 0 (int (length key))) (\<lambda>src.
      let inputBytes1 = take 2 inputBytes0 @ copy_bytes dst src @ drop 34 inputBytes0 in
      pbind (store_at inputBytes1 0 0x8B) (\<lambda>inputBytes2.
      pbind (store_at inputBytes2 1 1) (\<lambda>inputBytes3.
      pbind (go_slice inputBytes3 0 34) (\<lambda>pre.
      let parity = xor_parity pre in
      store_at inputBytes3 34 parity))))))"

definition EncodeBase58RecoveryKey_checked :: "byte list \<Rightarrow> panic + string" where
  "EncodeBase58RecoveryKey_checked key =
     pbind (recovery_payload_checked key) (\<lambda>inputBytes.
     pbind (go_slice inputBytes 0 (int (length inputBytes))) (\<lambda>whole.
     let recoveryKey = base58_Encode whole
     in Inr (space_loop 0 recoveryKey [])))"

text \<open>
  The grouping the specification describes for the encoded key: characters 0-3, then a space,
  then four more, and so on, with no space after the last group. It is compared with the loop of
  \<open>EncodeBase58RecoveryKey\<close> below.
\<close>

function group4 :: "string \<Rightarrow> string" where
  [simp del]: "group4 cs = (if length cs \<le> 4 then cs else take 4 cs @ '' '' @ group4 (drop 4 cs))"
  by pat_completeness auto
termination
  by (relation "measure length") auto

section \<open>Keystream cipher\<close>

text \<open>
  Modelled from the spec: \<^verbatim>\<open>XorA256CTR\<close> calls \<^verbatim>\<open>crypto/aes\<close> and \<^verbatim>\<open>crypto/cipher\<close> of the
  standard library, whose source is not part of the repository. The spec describes the
  operation as XOR-combining the input with a keystream generated by a 256-bit block cipher in
  counter mode, with the IV as the initial counter block. The block cipher itself
  (\<^verbatim>\<open>aes.NewCipher(key).Encrypt\<close>, one 16-byte block in, one out) is the parameter \<open>enc\<close>.
  The definitions follow the library's stream: it keeps a counter block, starting at the IV,
  which is incremented as one big-endian number after every block of keystream, and
  \<^verbatim>\<open>XORKeyStream\<close> combines the source with the keystream byte by byte. The library produces
  the keystream in batches of several blocks; the model produces it block by block, which
  yields the same bytes.
\<close>

fun ctr_increment_rev :: "byte list \<Rightarrow> byte list" where
  \<comment> \<open>\<^verbatim>\<open>for i := len(ctr)-1; i >= 0; i-- { ctr[i]++; if ctr[i] != 0 { break } }\<close>,
      on the reversed counter\<close>
  "ctr_increment_rev [] = []"
| "ctr_increment_rev (c # cs) =
     (let c' = c + 1 in if c' \<noteq> 0 then c' # cs else c' # ctr_increment_rev cs)"

definition ctr_increment :: "byte list \<Rightarrow> byte list" where
  "ctr_increment ctr = rev (ctr_increment_rev (rev ctr))"

definition xorBytes :: "byte list \<Rightarrow> byte list \<Rightarrow> byte list" where
  \<comment> \<open>the first \<^verbatim>\<open>min(len(a), len(b))\<close> bytes of \<^verbatim>\<open>a\<close> and \<^verbatim>\<open>b\<close>, combined\<close>
  "xorBytes a b = map2 (\<lambda>x y. x XOR y) a b"

function XORKeyStream :: "(byte list \<Rightarrow> byte list) \<Rightarrow> byte list \<Rightarrow> byte list \<Rightarrow> byte list" where
  [simp del]: "XORKeyStream block ctr src =
     (if src = [] then []
      else xorBytes (take 16 src) (block ctr) @ XORKeyStream block (ctr_increment ctr) (drop 16 src))"
  by pat_completeness auto
termination
  by (relation "measure (\<lambda>(_, _, src). length src)") auto

definition XorA256CTR ::
  "(byte list \<Rightarrow> byte list \<Rightarrow> byte list) \<Rightarrow> byte list \<Rightarrow> byte list \<Rightarrow> byte list \<Rightarrow> byte list" where
  "XorA256CTR enc source key iv =
     (let block = enc key;
          result = replicate (length source) (0 :: byte)
      in copy_bytes result (XORKeyStream block iv source))"

section \<open>Key and IV generation\<close>

text \<open>
  The random source is a parameter: \<open>read g n\<close> is \<^verbatim>\<open>rand.Read\<close> on a buffer of \<open>n\<close>
  bytes in generator state \<open>g\<close>. It returns the bytes it wrote (or \<open>None\<close> for a non-nil
  error) and the next state. A read error makes the generators panic.
\<close>

type_synonym 'g rand_source = "'g \<Rightarrow> nat \<Rightarrow> byte list option \<times> 'g"

definition GenAttachmentA256CTR ::
  "'g rand_source \<Rightarrow> 'g \<Rightarrow> panic + ((byte list \<times> byte list) \<times> 'g)" where
  "GenAttachmentA256CTR read g =
     (let key0 = replicate (nat AESCTRKeyLength) (0 :: byte);
          iv0 = replicate (nat AESCTRIVLength) (0 :: byte)
      in case read g (length key0) of
           (None, g1) \<Rightarrow> Inl RandReadFailed
         | (Some bs, g1) \<Rightarrow>
             let key = copy_bytes key0 bs in
             (case read g1 8 of
                (None, g2) \<Rightarrow> Inl RandReadFailed
              | (Some bs', g2) \<Rightarrow>
                  let iv = copy_bytes (take 8 iv0) bs' @ drop 8 iv0
                  in Inr ((key, iv), g2)))"

definition GenA256CTRIV :: "'g rand_source \<Rightarrow> 'g \<Rightarrow> panic + (byte list \<times> 'g)" where
  "GenA256CTRIV read g =
     (let iv0 = replicate (nat AESCTRIVLength) (0 :: byte)
      in case read g (length iv0) of
           (None, g1) \<Rightarrow> Inl RandReadFailed
         | (Some bs, g1) \<Rightarrow>
             let iv = copy_bytes iv0 bs
             in Inr (iv[8 := iv ! 8 AND 0x7F], g1))"

section \<open>Key derivation\<close>

subsection \<open>The HKDF reader\<close>

text \<open>
  Modelled from the spec: \<^verbatim>\<open>DeriveKeysSHA256\<close> calls \<^verbatim>\<open>golang.org/x/crypto/hkdf\<close>, whose
  source is not part of the repository. The spec describes a hash-based extract-and-expand scheme
  with a salt and an "info" label, read as a stream. The model follows that package's reader:
  \<^verbatim>\<open>Extract\<close> keys the MAC with the salt, \<^verbatim>\<open>Expand\<close> returns a reader whose \<^verbatim>\<open>Read\<close> first
  hands out what is left in its buffer and then produces block after block, each the MAC of the
  previous block, the info and a one-byte counter. HMAC-SHA256 itself is the parameter \<open>hmac\<close>
  (key first, message second).
\<close>

datatype hkdf_error = EntropyLimitReached

record hkdf =
  hkdf_expander :: "byte list"
  hkdf_size :: nat
  hkdf_info :: "byte list"
  hkdf_counter :: byte
  hkdf_prev :: "byte list"
  hkdf_buf :: "byte list"

definition hkdf_Extract :: "(byte list \<Rightarrow> byte list \<Rightarrow> byte list) \<Rightarrow> byte list \<Rightarrow> byte list \<Rightarrow> byte list" where
  "hkdf_Extract hmac secret salt = hmac salt secret"

definition hkdf_Expand :: "nat \<Rightarrow> byte list \<Rightarrow> byte list \<Rightarrow> hkdf" where
  "hkdf_Expand hsize pseudorandomKey info =
     \<lparr>hkdf_expander = pseudorandomKey, hkdf_size = hsize, hkdf_info = info,
      hkdf_counter = 1, hkdf_prev = [], hkdf_buf = []\<rparr>"

definition hkdf_New ::
  "(byte list \<Rightarrow> byte list \<Rightarrow> byte list) \<Rightarrow> nat \<Rightarrow> byte list \<Rightarrow> byte list \<Rightarrow> byte list \<Rightarrow> hkdf" where
  "hkdf_New hmac hsize secret salt info = hkdf_Expand hsize (hkdf_Extract hmac secret salt) info"

partial_function (option) hkdf_fill ::
  "(byte list \<Rightarrow> byte list \<Rightarrow> byte list) \<Rightarrow> hkdf \<Rightarrow> byte list \<Rightarrow> nat \<Rightarrow> nat
     \<Rightarrow> (hkdf \<times> byte list \<times> nat) option" where
  \<comment> \<open>the loop \<^verbatim>\<open>for len(p) > 0\<close>: \<open>out\<close> is what has been written to \<^verbatim>\<open>p\<close> so far,
      \<open>remaining\<close> is what is left of it, \<open>n\<close> the size of the last copy\<close>
  [code]: "hkdf_fill hmac f out remaining n =
     (if remaining > 0 then
        (let prev' = hmac (hkdf_expander f) (hkdf_prev f @ hkdf_info f @ [hkdf_counter f]);
             f' = f\<lparr>hkdf_prev := prev', hkdf_counter := hkdf_counter f + 1, hkdf_buf := prev'\<rparr>;
             n' = min remaining (length prev')
         in hkdf_fill hmac f' (out @ take n' prev') (remaining - n') n')
      else Some (f, out, n))"

definition hkdf_Read ::
  "(byte list \<Rightarrow> byte list \<Rightarrow> byte list) \<Rightarrow> hkdf \<Rightarrow> byte list
     \<Rightarrow> (hkdf \<times> byte list \<times> hkdf_error option) option" where
  \<comment> \<open>the reader after the call, the contents of \<^verbatim>\<open>p\<close> and the error; \<open>None\<close> when the
      loop does not end\<close>
  "hkdf_Read hmac f p =
     (let need = length p;
          remains = length (hkdf_buf f) + unat (255 - hkdf_counter f + 1) * hkdf_size f
      in if need > remains then Some (f, p, Some EntropyLimitReached)
         else
           (let n = min need (length (hkdf_buf f));
                out = take n (hkdf_buf f)
            in case hkdf_fill hmac f out (need - n) n of
                 None \<Rightarrow> None
               | Some (f', out', n') \<Rightarrow>
                   Some (f'\<lparr>hkdf_buf := drop n' (hkdf_buf f')\<rparr>, out', None)))"

subsection \<open>Deriving the AES and HMAC keys\<close>

definition HMACKeyLength :: int where
  "HMACKeyLength = 32"

definition SHAHashLength :: int where
  "SHAHashLength = 32"

definition string_bytes :: "string \<Rightarrow> byte list" where
  \<comment> \<open>\<^verbatim>\<open>[]byte(name)\<close>\<close>
  "string_bytes s = map of_char s"

definition DeriveKeysSHA256 ::
  "(byte list \<Rightarrow> byte list \<Rightarrow> byte list) \<Rightarrow> byte list \<Rightarrow> string \<Rightarrow> (byte list \<times> byte list) option" where
  \<comment> \<open>both results of \<^verbatim>\<open>Read\<close> are dropped by the source, as here\<close>
  "DeriveKeysSHA256 hmac key name =
     (let zeroBytes = replicate 32 (0 :: byte);
          derivedHkdf = hkdf_New hmac (nat SHAHashLength) key zeroBytes (string_bytes name);
          aesKey0 = replicate (nat AESCTRKeyLength) (0 :: byte);
          hmacKey0 = replicate (nat HMACKeyLength) (0 :: byte)
      in case hkdf_Read hmac derivedHkdf aesKey0 of
           None \<Rightarrow> None
         | Some (f1, aesKey, _) \<Rightarrow>
             (case hkdf_Read hmac f1 hmacKey0 of
                None \<Rightarrow> None
              | Some (f2, hmacKey, _) \<Rightarrow> Some (aesKey, hmacKey)))"

text \<open>
  The extract-and-expand scheme as its standard states it: the pseudorandom key is the MAC of
  the input under the salt, block \<open>i\<close> is the MAC of block \<open>i - 1\<close>, the info and the byte
  \<open>i\<close>, and the output is the first \<open>L\<close> bytes of the blocks 1, 2, ... in a row.
\<close>

fun hkdf_T :: "(byte list \<Rightarrow> byte list \<Rightarrow> byte list) \<Rightarrow> byte list \<Rightarrow> byte list \<Rightarrow> nat \<Rightarrow> byte list" where
  "hkdf_T hmac prk info 0 = []"
| "hkdf_T hmac prk info (Suc i) = hmac prk (hkdf_T hmac prk info i @ info @ [of_nat (Suc i)])"

definition hkdf_spec ::
  "(byte list \<Rightarrow> byte list \<Rightarrow> byte list) \<Rightarrow> nat \<Rightarrow> byte list \<Rightarrow> byte list \<Rightarrow> byte list \<Rightarrow> nat \<Rightarrow> byte list" where
  "hkdf_spec hmac hashLen salt ikm info L =
     take L (concat (map (hkdf_T hmac (hmac salt ikm) info)
                         [1 ..< Suc ((L + hashLen - 1) div hashLen)]))"

subsection \<open>Password-based derivation\<close>

text \<open>
  Modelled from the spec: \<^verbatim>\<open>PBKDF2SHA512\<close> calls \<^verbatim>\<open>golang.org/x/crypto/pbkdf2\<close>, whose source is
  not part of the repository. The spec describes a standard iterated-hash password-based scheme
  over a 512-bit hash that returns a key of the requested length. The model follows that
  package's \<^verbatim>\<open>Key\<close>: it computes \<^verbatim>\<open>(keyLen + hashLen - 1) / hashLen\<close> blocks, allocates room
  for them, makes each block the XOR of \<open>iter\<close> chained MACs, appends them and returns the first
  \<^verbatim>\<open>keyLen\<close> bytes. HMAC-SHA512 keyed with the password is the parameter \<open>prf\<close> (key first,
  message second); its output size is \<open>hashLen\<close>.

  The lengths and counters of \<^verbatim>\<open>Key\<close> are Go \<^verbatim>\<open>int\<close>s of 64 bits: every sum and product
  wraps around (\<open>int64\<close>), so a loop whose counter cannot pass its bound never ends, and the
  loops return an \<open>option\<close> whose \<open>None\<close> is the call that does not return. \<^verbatim>\<open>make\<close> panics
  on a capacity that is negative or larger than it grants; the largest capacity it grants is
  the parameter \<open>maxAlloc\<close>. It is never more than the runtime's constant of this name,
  \<open>2 ^ 48\<close> bytes on 64-bit Linux, and it is less where less memory is to be had.
\<close>

definition int64 :: "int \<Rightarrow> int" where
  \<comment> \<open>the 64-bit two's complement value of an arithmetic result\<close>
  "int64 x = (x + 2 ^ 63) mod 2 ^ 64 - 2 ^ 63"

definition block_index_bytes :: "int \<Rightarrow> byte list" where
  \<comment> \<open>\<^verbatim>\<open>byte(block >> 24), byte(block >> 16), byte(block >> 8), byte(block)\<close>\<close>
  "block_index_bytes block =
     [word_of_int (block div 2 ^ 24), word_of_int (block div 2 ^ 16),
      word_of_int (block div 2 ^ 8), word_of_int block]"

definition xor_into :: "byte list \<Rightarrow> byte list \<Rightarrow> panic + byte list" where
  \<comment> \<open>\<^verbatim>\<open>for x := range U { T[x] ^= U[x] }\<close>\<close>
  "xor_into T U =
     (if length U \<le> length T then Inr (map2 (\<lambda>t u. t XOR u) (take (length U) T) U @ drop (length U) T)
      else Inl IndexOutOfRange)"

partial_function (option) pbkdf2_iterate ::
  "(byte list \<Rightarrow> byte list) \<Rightarrow> int \<Rightarrow> int \<Rightarrow> byte list \<Rightarrow> byte list \<Rightarrow> (panic + byte list) option" where
  \<comment> \<open>\<^verbatim>\<open>for n := 2; n <= iter; n++\<close>, from \<open>n\<close> on; returns the block \<^verbatim>\<open>T\<close>\<close>
  [code]: "pbkdf2_iterate prf n iter U T =
     (if n \<le> iter then
        (let U' = prf U in
         case xor_into T U' of
           Inl e \<Rightarrow> Some (Inl e)
         | Inr T' \<Rightarrow> pbkdf2_iterate prf (int64 (n + 1)) iter U' T')
      else Some (Inr T))"

partial_function (option) pbkdf2_blocks ::
  "(byte list \<Rightarrow> byte list) \<Rightarrow> byte list \<Rightarrow> int \<Rightarrow> int \<Rightarrow> int \<Rightarrow> int \<Rightarrow> byte list
     \<Rightarrow> (panic + byte list) option" where
  \<comment> \<open>\<^verbatim>\<open>for block := 1; block <= numBlocks; block++\<close>, from \<open>block\<close> on; returns \<^verbatim>\<open>dk\<close>.
      \<^verbatim>\<open>T\<close> is the tail of \<^verbatim>\<open>dk\<close> in the source, so writing to it writes to \<^verbatim>\<open>dk\<close>\<close>
  [code]: "pbkdf2_blocks prf salt iter hashLen block numBlocks dk =
     (if block \<le> numBlocks then
        (let dk1 = dk @ prf (salt @ block_index_bytes block) in
         case go_slice dk1 (int (length dk1) - hashLen) (int (length dk1)) of
           Inl e \<Rightarrow> Some (Inl e)
         | Inr T \<Rightarrow>
             (let U = copy_bytes (replicate (nat hashLen) 0) T in
              case pbkdf2_iterate prf 2 iter U T of
                None \<Rightarrow> None
              | Some (Inl e) \<Rightarrow> Some (Inl e)
              | Some (Inr T') \<Rightarrow>
                  pbkdf2_blocks prf salt iter hashLen (int64 (block + 1)) numBlocks
                    (take (length dk1 - nat hashLen) dk1 @ T')))
      else Some (Inr dk))"

definition pbkdf2_Key ::
  "int \<Rightarrow> (byte list \<Rightarrow> byte list \<Rightarrow> byte list) \<Rightarrow> int \<Rightarrow> byte list \<Rightarrow> byte list \<Rightarrow> int \<Rightarrow> int
     \<Rightarrow> (panic + byte list) option" where
  "pbkdf2_Key maxAlloc hmac hashLen password salt iter keyLen =
     (let prf = hmac password;
          numBlocks = go_div (int64 (int64 (keyLen + hashLen) - 1)) hashLen;
          capacity = int64 (numBlocks * hashLen)
      in if capacity < 0 \<or> maxAlloc < capacity then Some (Inl MakeSliceOutOfRange)
         else
           (case pbkdf2_blocks prf salt iter hashLen 1 numBlocks [] of
              None \<Rightarrow> None
            | Some (Inl e) \<Rightarrow> Some (Inl e)
            | Some (Inr dk) \<Rightarrow> Some (go_slice dk 0 keyLen)))"

definition PBKDF2SHA512 ::
  "int \<Rightarrow> (byte list \<Rightarrow> byte list \<Rightarrow> byte list) \<Rightarrow> byte list \<Rightarrow> byte list \<Rightarrow> 64 word \<Rightarrow> 64 word
     \<Rightarrow> (panic + byte list) option" where
  \<comment> \<open>\<open>hmac\<close> is HMAC-SHA512, whose output has 64 bytes; \<open>iters\<close> and \<open>keyLenBits\<close> are
      Go \<^verbatim>\<open>int\<close>s, read as signed 64-bit values\<close>
  "PBKDF2SHA512 maxAlloc hmac password salt iters keyLenBits =
     pbkdf2_Key maxAlloc hmac 64 password salt (sint iters) (go_div (sint keyLenBits) 8)"

section \<open>Base58: decoding inverts encoding\<close>

lemma alphabet_length: "length alphabet = 58"
  by (simp add: alphabet_def)

lemma b58_alphabet_all: "\<forall>i \<in> set [0..<58]. b58 (alphabet ! i) = int i"
  by code_simp

lemma b58_alphabet: "i < 58 \<Longrightarrow> b58 (alphabet ! i) = int i"
  using b58_alphabet_all by simp

lemma alphabet_idx0_all: "\<forall>i \<in> set [1..<58]. alphabet ! i \<noteq> alphabetIdx0"
  by code_simp

lemma alphabet_nth_0: "alphabet ! 0 = alphabetIdx0"
  by code_simp

lemma alphabet_no_space_all: "\<forall>c \<in> set alphabet. c \<noteq> CHR '' ''"
  by code_simp

lemma encode_loop_acc: "encode_loop x acc = acc @ encode_loop x []"
proof (induction "nat x" arbitrary: x acc rule: less_induct)
  case less
  show ?case
  proof (cases "x > 0")
    case True
    let ?d = "alphabet ! nat (x mod 58)"
    have lt: "nat (x div 58) < nat x" using True by simp
    have "encode_loop x acc = encode_loop (x div 58) (acc @ [?d])"
      using True by (subst encode_loop.simps) simp
    also have "\<dots> = (acc @ [?d]) @ encode_loop (x div 58) []"
      by (rule less[OF lt])
    also have "\<dots> = acc @ encode_loop (x div 58) ([] @ [?d])"
      using less[OF lt, of "[?d]"] by simp
    also have "\<dots> = acc @ encode_loop x []"
      using True by (subst (2) encode_loop.simps) simp
    finally show ?thesis .
  next
    case False
    then show ?thesis by (simp add: encode_loop.simps)
  qed
qed

lemma encode_loop_pos:
  "x > 0 \<Longrightarrow> encode_loop x [] = alphabet ! nat (x mod 58) # encode_loop (x div 58) []"
  using encode_loop_acc[of "x div 58" "[alphabet ! nat (x mod 58)]"]
  by (subst encode_loop.simps) simp

lemma encode_loop_nonpos: "x \<le> 0 \<Longrightarrow> encode_loop x [] = []"
  by (simp add: encode_loop.simps)

lemma decode_encode_loop:
  "0 \<le> x \<Longrightarrow> \<exists>j'. decode_loop (encode_loop x [] @ rest) a j = decode_loop rest (a + j * x) j'"
proof (induction "nat x" arbitrary: x a j rule: less_induct)
  case less
  show ?case
  proof (cases "x > 0")
    case True
    let ?d = "nat (x mod 58)"
    have lt: "nat (x div 58) < nat x" using True by simp
    have d: "?d < 58" by simp
    have bd: "b58 (alphabet ! ?d) = x mod 58"
      using b58_alphabet[OF d] by simp
    have ne: "x mod 58 \<noteq> 255"
      using pos_mod_bound[of 58 x] by linarith
    have nn: "0 \<le> x div 58" using True by simp
    obtain j' where j': "decode_loop (encode_loop (x div 58) [] @ rest) (a + j * (x mod 58)) (j * 58)
        = decode_loop rest (a + j * (x mod 58) + (j * 58) * (x div 58)) j'"
      using less(1)[OF lt nn] by blast
    have split: "x mod 58 + 58 * (x div 58) = x" by simp
    have "j * (x mod 58) + (j * 58) * (x div 58) = j * (x mod 58 + 58 * (x div 58))"
      by (simp only: distrib_left mult.assoc)
    also have "\<dots> = j * x" by (simp only: split)
    finally have eq: "a + j * (x mod 58) + (j * 58) * (x div 58) = a + j * x"
      by simp
    have "decode_loop (encode_loop (x div 58) [] @ rest) (a + j * (x mod 58)) (j * 58)
        = decode_loop rest (a + j * x) j'"
      using j' unfolding eq .
    then have "decode_loop (encode_loop x [] @ rest) a j = decode_loop rest (a + j * x) j'"
      using bd ne by (simp add: encode_loop_pos[OF True])
    then show ?thesis by blast
  next
    case False
    then have "x = 0" using less.prems by simp
    then show ?thesis by (auto simp: encode_loop_nonpos)
  qed
qed

lemma decode_loop_zeros: "decode_loop (replicate n alphabetIdx0) a j = Some a"
proof (induction n arbitrary: a j)
  case 0
  then show ?case by simp
next
  case (Suc n)
  have "b58 alphabetIdx0 = 0" by code_simp
  then show ?case using Suc by simp
qed

lemma encode_loop_last:
  "x > 0 \<Longrightarrow> encode_loop x [] \<noteq> [] \<and> last (encode_loop x []) \<noteq> alphabetIdx0"
proof (induction "nat x" arbitrary: x rule: less_induct)
  case less
  have pos: "x > 0" by fact
  show ?case
  proof (cases "x div 58 > 0")
    case True
    have lt: "nat (x div 58) < nat x" using pos by simp
    show ?thesis using less(1)[OF lt True] by (simp add: encode_loop_pos[OF pos])
  next
    case False
    then have small: "x < 58" using pos
      by (simp add: pos_imp_zdiv_pos_iff)
    then have m: "x mod 58 = x" using pos by simp
    have e: "encode_loop (x div 58) [] = []" using False by (simp add: encode_loop_nonpos)
    have "nat x \<in> set [1..<58]" using pos small by auto
    then have "alphabet ! nat x \<noteq> alphabetIdx0" using alphabet_idx0_all by blast
    then show ?thesis by (simp add: encode_loop_pos[OF pos] e m)
  qed
qed

lemma numZeros_replicate_append:
  "ys = [] \<or> hd ys \<noteq> alphabetIdx0 \<Longrightarrow> numZeros (replicate n alphabetIdx0 @ ys) = n"
  by (induction n) (cases ys; auto)+

lemma leading_zero_bytes_eq:
  "leading_zero_bytes b acc = acc @ replicate (length (takeWhile (\<lambda>i. i = 0) b)) alphabetIdx0"
  by (induction b arbitrary: acc) (auto simp: replicate_append_same)

lemma SetBytes_snoc: "SetBytes (b @ [c]) = SetBytes b * 256 + uint c"
  by (simp add: SetBytes_def)

lemma SetBytes_nonneg: "0 \<le> SetBytes b"
  by (induction b rule: rev_induct) (simp_all add: SetBytes_def)

lemma Bytes_loop_acc: "Bytes_loop x acc = Bytes_loop x [] @ acc"
proof (induction "nat x" arbitrary: x acc rule: less_induct)
  case less
  show ?case
  proof (cases "x > 0")
    case True
    let ?d = "word_of_int (x mod 256) :: byte"
    have lt: "nat (x div 256) < nat x" using True by simp
    have "Bytes_loop x acc = Bytes_loop (x div 256) (?d # acc)"
      using True by (subst Bytes_loop.simps) simp
    also have "\<dots> = Bytes_loop (x div 256) [] @ (?d # acc)"
      by (rule less[OF lt])
    also have "\<dots> = Bytes_loop (x div 256) [?d] @ acc"
      using less[OF lt, of "[?d]"] by simp
    also have "\<dots> = Bytes_loop x [] @ acc"
      using True by (subst (2) Bytes_loop.simps) simp
    finally show ?thesis .
  next
    case False
    then show ?thesis by (simp add: Bytes_loop.simps)
  qed
qed

lemma Bytes_pos: "x > 0 \<Longrightarrow> Bytes x = Bytes (x div 256) @ [word_of_int (x mod 256)]"
  unfolding Bytes_def
  using Bytes_loop_acc[of "x div 256" "[word_of_int (x mod 256)]"]
  by (subst Bytes_loop.simps) simp

lemma Bytes_0: "Bytes 0 = []"
  by (simp add: Bytes_def Bytes_loop.simps)

lemma SetBytes_zero_iff: "SetBytes b = 0 \<longleftrightarrow> (\<forall>c \<in> set b. c = 0)"
proof (induction b rule: rev_induct)
  case Nil
  then show ?case by (simp add: SetBytes_def)
next
  case (snoc c b)
  have "0 \<le> SetBytes b" by (rule SetBytes_nonneg)
  moreover have "0 \<le> uint c" by simp
  ultimately have "SetBytes b * 256 + uint c = 0 \<longleftrightarrow> SetBytes b = 0 \<and> uint c = 0"
    by linarith
  then show ?case using snoc by (auto simp: SetBytes_snoc uint_0_iff)
qed

lemma Bytes_SetBytes: "Bytes (SetBytes b) = dropWhile (\<lambda>i. i = 0) b"
proof (induction b rule: rev_induct)
  case Nil
  then show ?case by (simp add: SetBytes_def Bytes_0)
next
  case (snoc c b)
  let ?x = "SetBytes (b @ [c])"
  show ?case
  proof (cases "?x > 0")
    case True
    have u: "0 \<le> uint c" "uint c < 256" using uint_bounded[of c] by simp_all
    have dv: "?x div 256 = SetBytes b" using u by (simp add: SetBytes_snoc)
    have md: "?x mod 256 = uint c" using u by (simp add: SetBytes_snoc)
    have ex: "\<exists>c' \<in> set (b @ [c]). c' \<noteq> 0"
      using True SetBytes_zero_iff[of "b @ [c]"] by auto
    have "Bytes ?x = dropWhile (\<lambda>i. i = 0) b @ [c]"
      using snoc by (simp add: Bytes_pos[OF True] dv md)
    also have "\<dots> = dropWhile (\<lambda>i. i = 0) (b @ [c])"
    proof (cases "\<forall>c' \<in> set b. c' = 0")
      case True
      then have "c \<noteq> 0" using ex by auto
      then show ?thesis using True by (simp add: dropWhile_append)
    next
      case False
      then show ?thesis by (auto simp: dropWhile_append1)
    qed
    finally show ?thesis .
  next
    case False
    then have z: "?x = 0" using SetBytes_nonneg[of "b @ [c]"] by linarith
    then have "\<forall>c' \<in> set (b @ [c]). c' = 0" using SetBytes_zero_iff by blast
    then have "dropWhile (\<lambda>i. i = 0) (b @ [c]) = []" by (simp add: dropWhile_eq_Nil_conv)
    then show ?thesis using z by (simp add: Bytes_0)
  qed
qed

lemma base58_Encode_eq:
  "base58_Encode b =
     replicate (length (takeWhile (\<lambda>i. i = 0) b)) alphabetIdx0 @ rev (encode_loop (SetBytes b) [])"
  by (simp add: base58_Encode_def leading_zero_bytes_eq)

lemma base58_roundtrip: "base58_Decode (base58_Encode b) = b"
proof -
  let ?x = "SetBytes b"
  let ?z = "length (takeWhile (\<lambda>i. i = 0) b)"
  let ?ds = "encode_loop ?x []"
  have revE: "rev (base58_Encode b) = ?ds @ replicate ?z alphabetIdx0"
    by (simp add: base58_Encode_eq)
  obtain j' where "decode_loop (?ds @ replicate ?z alphabetIdx0) 0 1
      = decode_loop (replicate ?z alphabetIdx0) (0 + 1 * ?x) j'"
    using decode_encode_loop[OF SetBytes_nonneg, of b "replicate ?z alphabetIdx0" 0 1] by blast
  then have dl: "decode_loop (rev (base58_Encode b)) 0 1 = Some ?x"
    by (simp add: revE decode_loop_zeros)
  have hdne: "rev ?ds = [] \<or> hd (rev ?ds) \<noteq> alphabetIdx0"
  proof (cases "?x > 0")
    case True
    then show ?thesis using encode_loop_last[OF True] by (simp add: hd_rev)
  next
    case False
    then show ?thesis by (simp add: encode_loop_nonpos)
  qed
  have nz: "numZeros (base58_Encode b) = ?z"
    unfolding base58_Encode_eq by (rule numZeros_replicate_append[OF hdne])
  have "base58_Decode (base58_Encode b) = replicate ?z 0 @ dropWhile (\<lambda>i. i = 0) b"
    by (simp add: base58_Decode_def dl nz Bytes_SetBytes)
  also have "replicate ?z 0 = takeWhile (\<lambda>i. i = 0) b"
    by (induction b) auto
  finally show ?thesis by simp
qed

section \<open>Properties of the recovery-key codec\<close>

lemma fold_xor_acc: "fold (\<lambda>b parity. parity XOR b) xs (a :: byte) = a XOR xor_parity xs"
proof (induction xs arbitrary: a)
  case Nil
  then show ?case by (simp add: xor_parity_def)
next
  case (Cons x xs)
  have "fold (\<lambda>b parity. parity XOR b) (x # xs) a = (a XOR x) XOR xor_parity xs"
    using Cons[of "a XOR x"] by simp
  moreover have "xor_parity (x # xs) = x XOR xor_parity xs"
    using Cons[of "0 XOR x"] by (simp add: xor_parity_def)
  ultimately show ?case by (simp add: xor.assoc)
qed

lemma xor_parity_Cons: "xor_parity (x # xs) = x XOR xor_parity xs"
  using fold_xor_acc[of xs "0 XOR x"] by (simp add: xor_parity_def)

lemma xor_parity_update:
  "i < length xs \<Longrightarrow> xor_parity (xs[i := v]) = xor_parity xs XOR (xs ! i) XOR v"
proof (induction xs arbitrary: i)
  case Nil
  then show ?case by simp
next
  case (Cons x xs)
  show ?case
  proof (cases i)
    case 0
    have "(x XOR xor_parity xs) XOR x XOR v = v XOR xor_parity xs"
      by (simp add: ac_simps)
    then show ?thesis using 0 by (simp add: xor_parity_Cons)
  next
    case (Suc j)
    then have "j < length xs" using Cons.prems by simp
    then show ?thesis using Suc Cons.IH[of j] by (simp add: xor_parity_Cons xor.assoc)
  qed
qed

lemma copy_bytes_zero32:
  "copy_bytes (take 32 (drop 2 (replicate 35 (0::byte)))) key
     = take 32 key @ replicate (32 - length key) 0"
  by (simp add: copy_bytes_def min_def)

lemma recovery_payload_eq:
  "recovery_payload key =
     [0x8B, 1] @ (take 32 key @ replicate (32 - length key) 0)
     @ [xor_parity ([0x8B, 1] @ (take 32 key @ replicate (32 - length key) 0))]"
proof -
  let ?body = "take 32 key @ replicate (32 - length key) (0::byte)"
  let ?pre = "[0x8B, 1] @ ?body"
  have lb: "length ?body = 32" by simp
  have lp: "length ?pre = 34" by simp
  have t2: "take 2 (replicate 35 (0::byte)) = [0, 0]"
    by (simp add: numeral_2_eq_2)
  have d34: "drop 34 (replicate 35 (0::byte)) = [0]" by simp
  have i3: "(([0, 0] @ ?body @ [0])[0 := 0x8B])[1 := 1] = ?pre @ [0::byte]"
    by simp
  have tk: "take 34 (?pre @ [0::byte]) = ?pre" using lp by simp
  have up: "(?pre @ [0::byte])[34 := p] = ?pre @ [p]" for p
    using list_update_length[of ?pre 0 "[]" p] lp by simp
  show ?thesis
    unfolding recovery_payload_def Let_def copy_bytes_zero32 t2 d34 i3 tk up by simp
qed

lemma recovery_payload_length: "length (recovery_payload key) = 35"
  by (simp add: recovery_payload_eq)

lemma encode_loop_alphabet: "set (encode_loop x []) \<subseteq> set alphabet"
proof (induction "nat x" arbitrary: x rule: less_induct)
  case less
  show ?case
  proof (cases "x > 0")
    case True
    have lt: "nat (x div 58) < nat x" using True by simp
    have "nat (x mod 58) < length alphabet" by (simp add: alphabet_length)
    then have "alphabet ! nat (x mod 58) \<in> set alphabet" by (rule nth_mem)
    then show ?thesis using less[OF lt] by (simp add: encode_loop_pos[OF True])
  next
    case False
    then show ?thesis by (simp add: encode_loop_nonpos)
  qed
qed

lemma base58_Encode_alphabet: "set (base58_Encode b) \<subseteq> set alphabet"
proof -
  have "alphabetIdx0 \<in> set alphabet"
    using nth_mem[of 0 alphabet] by (simp add: alphabet_length alphabet_nth_0)
  then show ?thesis
    using encode_loop_alphabet[of "SetBytes b"] by (auto simp: base58_Encode_eq)
qed

lemma strip_spaces_id: "set s \<subseteq> set alphabet \<Longrightarrow> strip_spaces s = s"
  unfolding strip_spaces_def using alphabet_no_space_all by (auto simp: filter_id_conv)

lemma strip_space_loop:
  "strip_spaces (space_loop i cs acc) = strip_spaces acc @ strip_spaces cs"
  by (induction i cs acc rule: space_loop.induct) (auto simp: strip_spaces_def)

lemma strip_spaces_Encode:
  "strip_spaces (EncodeBase58RecoveryKey key) = base58_Encode (recovery_payload key)"
proof -
  let ?b = "base58_Encode (recovery_payload key)"
  have "strip_spaces (space_loop 0 ?b []) = strip_spaces [] @ strip_spaces ?b"
    by (rule strip_space_loop)
  also have "\<dots> = ?b"
    using strip_spaces_id[OF base58_Encode_alphabet, of "recovery_payload key"]
    by (simp add: strip_spaces_def)
  finally show ?thesis by (simp add: EncodeBase58RecoveryKey_def)
qed

lemma DecodeBase58RecoveryKey_eq:
  "DecodeBase58RecoveryKey s =
     (let d = base58_Decode (strip_spaces s)
      in if length d = 35 \<and> xor_parity (take 34 d) = d ! 34 \<and> d ! 0 = 0x8B \<and> d ! 1 = 1
         then Inr (Some (take 32 (drop 2 d))) else Inr None)"
proof (cases "length (base58_Decode (strip_spaces s)) = 35")
  case True
  then show ?thesis
    by (simp add: DecodeBase58RecoveryKey_def Let_def pbind_def go_slice_def index_at_def
        AESCTRKeyLength_def)
next
  case False
  then show ?thesis
    by (simp add: DecodeBase58RecoveryKey_def Let_def AESCTRKeyLength_def)
qed

lemma Decode_payload:
  assumes "strip_spaces s = base58_Encode (recovery_payload key)"
  shows "DecodeBase58RecoveryKey s = Inr (Some (take 32 key @ replicate (32 - length key) 0))"
proof -
  let ?body = "take 32 key @ replicate (32 - length key) (0::byte)"
  let ?pre = "[0x8B, 1] @ ?body"
  let ?p = "recovery_payload key"
  have d: "base58_Decode (strip_spaces s) = ?p"
    using assms by (simp add: base58_roundtrip)
  have p: "?p = ?pre @ [xor_parity ?pre]" by (simp add: recovery_payload_eq)
  have lp: "length ?pre = 34" by simp
  have t34: "take 34 ?p = ?pre" using lp by (simp add: p)
  have n34: "?p ! 34 = xor_parity ?pre"
    using nth_append_length[of ?pre "xor_parity ?pre" "[]"] lp by (simp add: p)
  have n0: "?p ! 0 = 0x8B" by (simp add: p)
  have n1: "?p ! 1 = 1" by (simp add: p)
  have body: "take 32 (drop 2 ?p) = ?body" by (simp add: p)
  show ?thesis
    unfolding DecodeBase58RecoveryKey_eq d Let_def
    using t34 n34 n0 n1 body recovery_payload_length[of key] by simp
qed

lemma recovery_roundtrip_gen:
  "DecodeBase58RecoveryKey (EncodeBase58RecoveryKey key)
     = Inr (Some (take 32 key @ replicate (32 - length key) 0))"
  by (rule Decode_payload[OF strip_spaces_Encode])

text \<open>
  Claim C1 (recovery-key round trip): for every 32-byte secret \<open>s\<close>, decoding the encoded
  recovery key returns \<open>s\<close>: the decoder does not panic and its result is the secret itself.
\<close>

theorem C1_recovery_key_roundtrip:
  assumes "length s = 32"
  shows "DecodeBase58RecoveryKey (EncodeBase58RecoveryKey s) = Inr (Some s)"
proof -
  have "strip_spaces (EncodeBase58RecoveryKey s) = base58_Encode (recovery_payload s)"
    by (rule strip_spaces_Encode)
  then have "DecodeBase58RecoveryKey (EncodeBase58RecoveryKey s)
      = Inr (Some (take 32 s @ replicate (32 - length s) 0))"
    by (rule Decode_payload)
  then show ?thesis using assms by simp
qed

theorem C1_recovery_key_roundtrip_witness:
  "DecodeBase58RecoveryKey (EncodeBase58RecoveryKey (replicate 32 0x2A)) = Inr (Some (replicate 32 0x2A))"
  using C1_recovery_key_roundtrip [of "replicate 32 0x2A"] by simp

text \<open>
  Claim C2 (validating decode): for every input string the decoder returns a result and never
  panics. With \<open>d\<close> the base58 decoding of the input without its spaces, the result is the
  invalid one (\<open>None\<close>, the source's \<^verbatim>\<open>nil\<close>) unless \<open>d\<close> has exactly 35 bytes, the XOR of
  its first 34 bytes equals byte 34, byte 0 is \<open>0x8B\<close> and byte 1 is \<open>0x01\<close>; when all checks
  pass, it is bytes 2..33 of \<open>d\<close>.
\<close>

theorem C2_decode_validation:
  "(\<exists>r. DecodeBase58RecoveryKey s = Inr r) \<and>
   DecodeBase58RecoveryKey s =
     (let d = base58_Decode (strip_spaces s)
      in if length d = 35 \<and> xor_parity (take 34 d) = d ! 34 \<and> d ! 0 = 0x8B \<and> d ! 1 = 1
         then Inr (Some (take 32 (drop 2 d))) else Inr None)"
proof -
  let ?d = "base58_Decode (strip_spaces s)"
  have eq: "DecodeBase58RecoveryKey s =
     (if length ?d = 35 \<and> xor_parity (take 34 ?d) = ?d ! 34 \<and> ?d ! 0 = 0x8B \<and> ?d ! 1 = 1
      then Inr (Some (take 32 (drop 2 ?d))) else Inr None)"
    using DecodeBase58RecoveryKey_eq[of s] by (simp add: Let_def)
  then have "\<exists>r. DecodeBase58RecoveryKey s = Inr r"
    by (cases "length ?d = 35 \<and> xor_parity (take 34 ?d) = ?d ! 34 \<and> ?d ! 0 = 0x8B \<and> ?d ! 1 = 1") simp_all
  then show ?thesis using eq by (simp add: Let_def)
qed

theorem C2_decode_validation_witness:
  "DecodeBase58RecoveryKey ''EsSz ygLv VP1b xF1C v7kE eBQx MxDP buG5 w25T L3b6 hfyG Kkrd''
     = Inr (Some (replicate 32 0))
   \<and> DecodeBase58RecoveryKey ''EsSz ygLv VP1b xF1C v7kE eBQx MxDP buG5 w25T L3b6 hfyG Kkre''
     = Inr None
   \<and> DecodeBase58RecoveryKey ''not a key 0OIl'' = Inr None"
proof -
  note a = C2_decode_validation[of "''EsSz ygLv VP1b xF1C v7kE eBQx MxDP buG5 w25T L3b6 hfyG Kkrd''", THEN conjunct2]
  note b = C2_decode_validation[of "''EsSz ygLv VP1b xF1C v7kE eBQx MxDP buG5 w25T L3b6 hfyG Kkre''", THEN conjunct2]
  note c = C2_decode_validation[of "''not a key 0OIl''", THEN conjunct2]
  show ?thesis unfolding a b c by code_simp
qed

text \<open>
  Claim C4 (payload layout): for every 32-byte secret \<open>s\<close>, the buffer that
  \<open>EncodeBase58RecoveryKey\<close> hands to the base58 encoder has 35 bytes, byte 0 is \<open>0x8B\<close>,
  byte 1 is \<open>0x01\<close>, bytes 2..33 are \<open>s\<close>, and byte 34 is the XOR of bytes 0..33. For the
  secret of 32 zero bytes the buffer starts with \<open>0x8B, 0x01\<close>, and decoding the encoding
  returns the all-zero secret.
\<close>

theorem C4_payload_layout:
  assumes "length s = 32"
  shows "EncodeBase58RecoveryKey s = space_loop 0 (base58_Encode (recovery_payload s)) []
    \<and> length (recovery_payload s) = 35
    \<and> recovery_payload s ! 0 = 0x8B
    \<and> recovery_payload s ! 1 = 1
    \<and> take 32 (drop 2 (recovery_payload s)) = s
    \<and> recovery_payload s ! 34 = xor_parity (take 34 (recovery_payload s))
    \<and> take 2 (recovery_payload (replicate 32 0)) = [0x8B, 1]
    \<and> DecodeBase58RecoveryKey (EncodeBase58RecoveryKey (replicate 32 0)) = Inr (Some (replicate 32 0))"
proof -
  let ?pre = "[0x8B, 1] @ s"
  have p: "recovery_payload s = ?pre @ [xor_parity ?pre]"
    using assms by (simp add: recovery_payload_eq)
  have lp: "length ?pre = 34" using assms by simp
  have t34: "take 34 (recovery_payload s) = ?pre" using lp by (simp add: p)
  have "(?pre @ [xor_parity ?pre]) ! length ?pre = xor_parity ?pre"
    by (rule nth_append_length)
  then have n34: "recovery_payload s ! 34 = xor_parity ?pre"
    by (simp only: lp p)
  have body: "take 32 (drop 2 (recovery_payload s)) = s" using assms by (simp add: p)
  have z: "take 2 (recovery_payload (replicate 32 0)) = [0x8B, 1]"
    by (simp add: recovery_payload_eq)
  have rt: "DecodeBase58RecoveryKey (EncodeBase58RecoveryKey (replicate 32 0)) = Inr (Some (replicate 32 0))"
    by (simp add: recovery_roundtrip_gen)
  have e: "EncodeBase58RecoveryKey s = space_loop 0 (base58_Encode (recovery_payload s)) []"
    by (simp add: EncodeBase58RecoveryKey_def)
  have n0: "recovery_payload s ! 0 = 0x8B" by (simp add: p)
  have n1: "recovery_payload s ! 1 = 1" by (simp add: p)
  show ?thesis
    using e recovery_payload_length[of s] n0 n1 body n34 t34 z rt by simp
qed

theorem C4_payload_layout_witness:
  "recovery_payload (map of_nat [1..<33]) ! 0 = 0x8B
   \<and> recovery_payload (map of_nat [1..<33]) ! 1 = 1
   \<and> take 32 (drop 2 (recovery_payload (map of_nat [1..<33]))) = map of_nat [1..<33]
   \<and> recovery_payload (map of_nat [1..<33]) ! 34 = 0xAA"
proof -
  have l: "length (map of_nat [1..<33] :: byte list) = 32" by simp
  have x: "xor_parity (take 34 (recovery_payload (map of_nat [1..<33]))) = 0xAA"
    by code_simp
  show ?thesis using C4_payload_layout[OF l] x by simp
qed

subsection \<open>Tamper detection\<close>

lemma xor_cancel_neq: "(a :: byte) \<noteq> b \<Longrightarrow> p XOR a XOR b \<noteq> p"
proof
  assume ne: "a \<noteq> b" and eq: "p XOR a XOR b = p"
  have "a XOR b = p XOR (p XOR a XOR b)" by (simp flip: xor.assoc)
  also have "\<dots> = 0" by (simp only: eq xor_self_eq)
  finally have z: "a XOR b = 0" .
  have "b = a XOR (a XOR b)" by (simp flip: xor.assoc)
  also have "\<dots> = a" by (simp only: z xor.right_neutral)
  finally show False using ne by simp
qed

lemma single_byte_change_rejected:
  assumes len: "length p = 35" and lenq: "length q = 35"
    and par: "xor_parity (take 34 p) = p ! 34"
    and i: "i < 35" and diff: "q ! i \<noteq> p ! i"
    and same: "\<And>j. j < 35 \<Longrightarrow> j \<noteq> i \<Longrightarrow> q ! j = p ! j"
  shows "xor_parity (take 34 q) \<noteq> q ! 34"
proof (cases "i = 34")
  case True
  have "take 34 q = take 34 p"
    using len lenq same True by (intro nth_equalityI) auto
  then show ?thesis using par diff True by simp
next
  case False
  then have i34: "i < 34" using i by simp
  have q34: "q ! 34 = p ! 34" using same[of 34] False by simp
  have "take 34 q = (take 34 p)[i := q ! i]"
  proof (intro nth_equalityI)
    show "length (take 34 q) = length ((take 34 p)[i := q ! i])" using len lenq by simp
  next
    fix j assume "j < length (take 34 q)"
    then have j: "j < 34" by simp
    show "take 34 q ! j = (take 34 p)[i := q ! i] ! j"
    proof (cases "j = i")
      case True
      then show ?thesis using j len by simp
    next
      case False
      then show ?thesis using j len same[of j] by simp
    qed
  qed
  then have "xor_parity (take 34 q) = xor_parity (take 34 p) XOR (take 34 p ! i) XOR q ! i"
    using xor_parity_update[of i "take 34 p" "q ! i"] i34 len by simp
  also have "\<dots> = p ! 34 XOR p ! i XOR q ! i" using par i34 by simp
  also have "\<dots> \<noteq> p ! 34" using diff xor_cancel_neq[of "p ! i" "q ! i" "p ! 34"] by auto
  finally show ?thesis using q34 by simp
qed

text \<open>
  Claim C5 (single-byte corruption): let \<open>p\<close> be a payload that the decoder accepts, and let
  \<open>q\<close> be a buffer of the same length that differs from \<open>p\<close> at exactly one position \<open>i\<close>.
  Then \<open>p\<close> has 35 bytes and the decoder reports \<open>q\<close> invalid.
\<close>

theorem C5_single_byte_corruption_detected:
  assumes valid: "DecodeBase58RecoveryKey (base58_Encode p) = Inr (Some r)"
    and lenq: "length q = length p"
    and i: "i < length p" and diff: "q ! i \<noteq> p ! i"
    and same: "\<And>j. j < length p \<Longrightarrow> j \<noteq> i \<Longrightarrow> q ! j = p ! j"
  shows "length p = 35 \<and> DecodeBase58RecoveryKey (base58_Encode q) = Inr None"
proof -
  have sp: "strip_spaces (base58_Encode b) = base58_Encode b" for b
    by (rule strip_spaces_id[OF base58_Encode_alphabet])
  have dp: "DecodeBase58RecoveryKey (base58_Encode p) =
      (if length p = 35 \<and> xor_parity (take 34 p) = p ! 34 \<and> p ! 0 = 0x8B \<and> p ! 1 = 1
       then Inr (Some (take 32 (drop 2 p))) else Inr None)"
    by (simp add: DecodeBase58RecoveryKey_eq sp base58_roundtrip)
  have dq: "DecodeBase58RecoveryKey (base58_Encode q) =
      (if length q = 35 \<and> xor_parity (take 34 q) = q ! 34 \<and> q ! 0 = 0x8B \<and> q ! 1 = 1
       then Inr (Some (take 32 (drop 2 q))) else Inr None)"
    by (simp add: DecodeBase58RecoveryKey_eq sp base58_roundtrip)
  have len: "length p = 35" and par: "xor_parity (take 34 p) = p ! 34"
    using valid unfolding dp by (auto split: if_splits)
  have "xor_parity (take 34 q) \<noteq> q ! 34"
    using single_byte_change_rejected[OF len _ par _ diff] lenq i same len by simp
  then show ?thesis using len unfolding dq by simp
qed

theorem C5_single_byte_corruption_detected_witness:
  "DecodeBase58RecoveryKey (base58_Encode (recovery_payload (replicate 32 0)))
     = Inr (Some (replicate 32 0))
   \<and> DecodeBase58RecoveryKey (base58_Encode ((recovery_payload (replicate 32 0))[7 := 0x40]))
     = Inr None"
proof -
  let ?p = "recovery_payload (replicate 32 0)"
  let ?q = "?p[7 := 0x40]"
  have v: "DecodeBase58RecoveryKey (base58_Encode ?p) = Inr (Some (replicate 32 0))"
    by code_simp
  have l: "length ?q = length ?p" by simp
  have i: "7 < length ?p" by (simp add: recovery_payload_length)
  have d: "?q ! 7 \<noteq> ?p ! 7" by code_simp
  have s: "\<And>j. j < length ?p \<Longrightarrow> j \<noteq> 7 \<Longrightarrow> ?q ! j = ?p ! j" by simp
  show ?thesis
    using C5_single_byte_corruption_detected[OF v l i d s] v by simp
qed

lemma recovery_payload_checked_eq: "recovery_payload_checked key = Inr (recovery_payload key)"
proof -
  let ?ib0 = "replicate 35 (0 :: byte)"
  let ?ib1 = "take 2 ?ib0 @ copy_bytes (take 32 (drop 2 ?ib0)) key @ drop 34 ?ib0"
  have l1: "length ?ib1 = 35" by (simp add: copy_bytes_def)
  have dst: "go_slice ?ib0 2 34 = Inr (take 32 (drop 2 ?ib0))"
    by (simp add: go_slice_def)
  have src: "go_slice key 0 (int (length key)) = Inr key"
    by (simp add: go_slice_def)
  have s0: "store_at ?ib1 0 0x8B = Inr (?ib1[0 := 0x8B])"
    using l1 by (simp add: store_at_def)
  have s1: "store_at (?ib1[0 := 0x8B]) 1 1 = Inr (?ib1[0 := 0x8B, 1 := 1])"
    using l1 by (simp add: store_at_def)
  have pre: "go_slice (?ib1[0 := 0x8B, 1 := 1]) 0 34 = Inr (take 34 (?ib1[0 := 0x8B, 1 := 1]))"
    using l1 by (simp add: go_slice_def)
  have s34: "store_at (?ib1[0 := 0x8B, 1 := 1]) 34 p = Inr (?ib1[0 := 0x8B, 1 := 1, 34 := p])" for p
    using l1 by (simp add: store_at_def)
  show ?thesis
    unfolding recovery_payload_checked_def recovery_payload_def Let_def
    by (simp only: dst src s0 s1 pre s34 pbind_def sum.case)
qed

text \<open>
  Claim C10 (encoding is total over every input length): for a byte slice \<open>key\<close> of any
  length, no access of the encoder to the array or to the key fails: with every slicing and
  indexing checked, the encoder returns a string and never a panic, and that string is the one
  of \<open>EncodeBase58RecoveryKey\<close>. The payload it encodes always has 35 bytes: \<open>0x8B, 0x01\<close>,
  then the first 32 bytes of \<open>key\<close>, then zeros up to position 33 when \<open>key\<close> is shorter, then
  the parity byte.
\<close>

theorem C10_encode_any_length:
  "EncodeBase58RecoveryKey_checked key = Inr (EncodeBase58RecoveryKey key)
   \<and> recovery_payload_checked key = Inr (recovery_payload key)
   \<and> EncodeBase58RecoveryKey key = space_loop 0 (base58_Encode (recovery_payload key)) []
   \<and> length (recovery_payload key) = 35
   \<and> recovery_payload key =
        [0x8B, 1] @ take 32 key @ replicate (32 - length key) 0
          @ [xor_parity ([0x8B, 1] @ take 32 key @ replicate (32 - length key) 0)]"
proof -
  have p: "recovery_payload key =
     [0x8B, 1] @ take 32 key @ replicate (32 - length key) 0
       @ [xor_parity ([0x8B, 1] @ take 32 key @ replicate (32 - length key) 0)]"
    using recovery_payload_eq[of key] by simp
  have e: "EncodeBase58RecoveryKey key = space_loop 0 (base58_Encode (recovery_payload key)) []"
    by (simp add: EncodeBase58RecoveryKey_def)
  have c: "recovery_payload_checked key = Inr (recovery_payload key)"
    by (rule recovery_payload_checked_eq)
  have whole: "go_slice (recovery_payload key) 0 (int (length (recovery_payload key)))
      = Inr (recovery_payload key)"
    by (simp add: go_slice_def)
  have ec: "EncodeBase58RecoveryKey_checked key = Inr (EncodeBase58RecoveryKey key)"
    by (simp add: EncodeBase58RecoveryKey_checked_def c whole pbind_def e)
  show ?thesis
    using ec c e recovery_payload_length[of key] p by simp
qed

theorem C10_encode_any_length_witness:
  "EncodeBase58RecoveryKey_checked []
     = Inr ''EsSz ygLv VP1b xF1C v7kE eBQx MxDP buG5 w25T L3b6 hfyG Kkrd''
   \<and> recovery_payload_checked [1, 2, 3] = Inr ([0x8B, 1, 1, 2, 3] @ replicate 29 0 @ [0x8A])
   \<and> recovery_payload_checked (replicate 40 5) = Inr ([0x8B, 1] @ replicate 32 5 @ [0x8A])"
proof -
  have a: "EncodeBase58RecoveryKey [] = ''EsSz ygLv VP1b xF1C v7kE eBQx MxDP buG5 w25T L3b6 hfyG Kkrd''"
    by code_simp
  have b: "recovery_payload [1, 2, 3] = [0x8B, 1, 1, 2, 3] @ replicate 29 0 @ [0x8A]"
    by code_simp
  have c: "recovery_payload (replicate 40 5) = [0x8B, 1] @ replicate 32 5 @ [0x8A]"
    by code_simp
  note t1 = C10_encode_any_length[of "[]", THEN conjunct1]
  note t2 = C10_encode_any_length[of "[1, 2, 3]", THEN conjunct2, THEN conjunct1]
  note t3 = C10_encode_any_length[of "replicate 40 5", THEN conjunct2, THEN conjunct1]
  show ?thesis unfolding t1 t2 t3 a b c by simp
qed

subsection \<open>Grouping by four\<close>

lemma group4_short: "length cs \<le> 4 \<Longrightarrow> group4 cs = cs"
  by (subst group4.simps) simp

lemma group4_long: "4 < length cs \<Longrightarrow> group4 cs = take 4 cs @ '' '' @ group4 (drop 4 cs)"
  by (subst group4.simps) simp

lemma group4_length: "length (group4 cs) = length cs + (length cs - 1) div 4"
proof (induction cs rule: group4.induct)
  case (1 cs)
  show ?case
  proof (cases "length cs \<le> 4")
    case True
    then show ?thesis by (simp add: group4_short)
  next
    case False
    then have long: "4 < length cs" by simp
    have ih: "length (group4 (drop 4 cs)) = (length cs - 4) + (length cs - 4 - 1) div 4"
      using "1.IH"[OF False] by simp
    have "length (group4 cs) = 5 + length (group4 (drop 4 cs))"
      using long by (simp add: group4_long[OF long])
    also have "\<dots> = 5 + ((length cs - 4) + (length cs - 4 - 1) div 4)"
      by (simp only: ih)
    also have "\<dots> = length cs + (length cs - 1) div 4"
    proof -
      obtain m where m: "length cs = m + 5"
        using long by (intro that[of "length cs - 5"]) simp
      have "(m + 4) div 4 = m div 4 + 1" by simp
      then show ?thesis by (simp add: m)
    qed
    finally show ?thesis .
  qed
qed

lemma group4_space_positions:
  "CHR '' '' \<notin> set cs \<Longrightarrow> i < length (group4 cs) \<Longrightarrow>
   (group4 cs ! i = CHR '' '') = (i mod 5 = 4)"
proof (induction cs arbitrary: i rule: group4.induct)
  case (1 cs)
  show ?case
  proof (cases "length cs \<le> 4")
    case True
    then have g: "group4 cs = cs" by (rule group4_short)
    have i: "i < length cs" using "1.prems"(2) g by simp
    then have "cs ! i \<in> set cs" by simp
    then have "cs ! i \<noteq> CHR '' ''" using "1.prems"(1) by metis
    moreover have "i < 4" using i True by linarith
    then have "i mod 5 \<noteq> 4" by simp
    ultimately show ?thesis by (simp add: g)
  next
    case False
    then have long: "4 < length cs" by simp
    let ?r = "group4 (drop 4 cs)"
    have g: "group4 cs = take 4 cs @ CHR '' '' # ?r" by (simp add: group4_long[OF long])
    have l4: "length (take 4 cs) = 4" using long by simp
    have ns: "CHR '' '' \<notin> set (drop 4 cs)"
      using "1.prems"(1) by (meson in_set_dropD)
    consider (lo) "i < 4" | (eq) "i = 4" | (hi) "5 \<le> i" by linarith
    then show ?thesis
    proof cases
      case lo
      then have "group4 cs ! i = cs ! i" using l4 by (simp add: g nth_append)
      moreover have "cs ! i \<in> set cs" using lo long by simp
      then have "cs ! i \<noteq> CHR '' ''" using "1.prems"(1) by metis
      moreover have "i mod 5 \<noteq> 4" using lo by simp
      ultimately show ?thesis by simp
    next
      case eq
      then show ?thesis using l4 by (simp add: g nth_append)
    next
      case hi
      have nth: "group4 cs ! i = ?r ! (i - 5)"
        using hi l4 by (simp add: g nth_append nth_Cons')
      have "i - 5 < length ?r" using "1.prems"(2) hi l4 by (simp add: g)
      then have "(?r ! (i - 5) = CHR '' '') = ((i - 5) mod 5 = 4)"
        by (rule "1.IH"[OF False ns])
      moreover have "((i - 5) mod 5 = 4) = (i mod 5 = 4)"
      proof -
        have "i = (i - 5) + 5" using hi by simp
        then have "i mod 5 = ((i - 5) + 5) mod 5" by simp
        then show ?thesis by simp
      qed
      ultimately show ?thesis using nth by simp
    qed
  qed
qed

lemma space_loop_append:
  "space_loop i (xs @ ys) acc = space_loop (i + length xs) ys (space_loop i xs acc)"
  by (induction i xs acc rule: space_loop.induct) simp_all

lemma space_loop_no_space:
  "(\<And>k. k < length cs \<Longrightarrow> (i + k) mod 4 \<noteq> 0) \<Longrightarrow> space_loop i cs acc = acc @ cs"
proof (induction cs arbitrary: i acc)
  case Nil
  then show ?case by simp
next
  case (Cons c cs)
  have here: "i mod 4 \<noteq> 0" using Cons.prems[of 0] by simp
  have rest: "\<And>k. k < length cs \<Longrightarrow> (Suc i + k) mod 4 \<noteq> 0"
    using Cons.prems[of "Suc k" for k] by simp
  show ?case using here Cons.IH[OF rest] by simp
qed

lemma space_loop_first_group:
  assumes "i mod 4 = 0" and "cs \<noteq> []" and "length cs \<le> 4"
  shows "space_loop i cs acc = acc @ (if i > 0 then '' '' else []) @ cs"
proof -
  obtain c cs' where cs: "cs = c # cs'" using assms(2) by (cases cs) auto
  have "\<And>k. k < length cs' \<Longrightarrow> (Suc i + k) mod 4 \<noteq> 0"
  proof -
    fix k assume "k < length cs'"
    then have "k < 3" using assms(3) cs by simp
    then show "(Suc i + k) mod 4 \<noteq> 0" using assms(1) by presburger
  qed
  then have "space_loop (Suc i) cs' acc' = acc' @ cs'" for acc'
    by (rule space_loop_no_space)
  then show ?thesis using assms(1) cs by simp
qed

lemma space_loop_group4:
  "i mod 4 = 0 \<Longrightarrow>
   space_loop i cs acc = acc @ (if cs = [] then [] else (if i > 0 then '' '' else []) @ group4 cs)"
proof (induction "length cs" arbitrary: cs i acc rule: less_induct)
  case less
  show ?case
  proof (cases "length cs \<le> 4")
    case True
    show ?thesis
    proof (cases "cs = []")
      case True
      then show ?thesis by simp
    next
      case False
      then show ?thesis
        using space_loop_first_group[OF less.prems False True] group4_short[OF True] by simp
    qed
  next
    case False
    then have long: "4 < length cs" by simp
    let ?a = "take 4 cs" and ?b = "drop 4 cs"
    let ?sp = "if i > 0 then '' '' else []"
    have la: "length ?a = 4" using long by simp
    have ne: "?a \<noteq> []" "?b \<noteq> []" "cs \<noteq> []" using long by auto
    have i4: "(i + 4) mod 4 = 0" using less.prems by simp
    have "space_loop i cs acc = space_loop i (?a @ ?b) acc" by simp
    also have "\<dots> = space_loop (i + 4) ?b (space_loop i ?a acc)"
      by (simp only: space_loop_append la)
    also have "space_loop i ?a acc = acc @ ?sp @ ?a"
      using space_loop_first_group[OF less.prems ne(1)] la by simp
    also have "space_loop (i + 4) ?b (acc @ ?sp @ ?a) = (acc @ ?sp @ ?a) @ '' '' @ group4 ?b"
      using less.hyps[of ?b "i + 4", OF _ i4] long ne(2) by simp
    also have "\<dots> = acc @ ?sp @ group4 cs"
      by (simp add: group4_long[OF long])
    finally show ?thesis using ne(3) by simp
  qed
qed

text \<open>
  Claim C7 (spacing): the string returned by \<open>EncodeBase58RecoveryKey\<close> is the base58 encoding
  of the 35-byte payload in groups of four characters separated by single spaces (characters
  0-3, a space, four more, and so on): its spaces are exactly at the positions 4, 9, 14, ...,
  it is as long as the base58 string plus one space for every four characters before the last
  group, and removing all spaces from it yields exactly that base58 string.
\<close>

theorem C7_spacing:
  "EncodeBase58RecoveryKey key = group4 (base58_Encode (recovery_payload key))
   \<and> strip_spaces (EncodeBase58RecoveryKey key) = base58_Encode (recovery_payload key)
   \<and> length (EncodeBase58RecoveryKey key)
       = length (base58_Encode (recovery_payload key))
         + (length (base58_Encode (recovery_payload key)) - 1) div 4
   \<and> (\<forall>i < length (EncodeBase58RecoveryKey key).
         (EncodeBase58RecoveryKey key ! i = CHR '' '') = (i mod 5 = 4))"
proof -
  let ?b = "base58_Encode (recovery_payload key)"
  have "space_loop 0 ?b [] = [] @ (if ?b = [] then [] else (if (0::nat) > 0 then '' '' else []) @ group4 ?b)"
    by (rule space_loop_group4) simp
  moreover have "group4 [] = []" by (simp add: group4_short)
  ultimately have "space_loop 0 ?b [] = group4 ?b" by (cases "?b = []") simp_all
  then have e: "EncodeBase58RecoveryKey key = group4 ?b"
    by (simp add: EncodeBase58RecoveryKey_def)
  have ns: "CHR '' '' \<notin> set ?b"
    using base58_Encode_alphabet[of "recovery_payload key"] alphabet_no_space_all by blast
  have pos: "\<forall>i < length (group4 ?b). (group4 ?b ! i = CHR '' '') = (i mod 5 = 4)"
    using group4_space_positions[OF ns] by blast
  show ?thesis
    unfolding e using strip_spaces_Encode[of key] group4_length[of ?b] pos
    by (simp add: e)
qed

theorem C7_spacing_witness:
  "EncodeBase58RecoveryKey (replicate 32 0xFF)
     = ''EsUK 2TRo ZKTB CKmv wEDA o6rq tTYu aKzp eJ9f 95nM 3VHk Xbnq''
   \<and> strip_spaces (EncodeBase58RecoveryKey (replicate 32 0xFF))
     = ''EsUK2TRoZKTBCKmvwEDAo6rqtTYuaKzpeJ9f95nM3VHkXbnq''"
proof -
  note a = C7_spacing[of "replicate 32 0xFF", THEN conjunct1]
  note b = C7_spacing[of "replicate 32 0xFF", THEN conjunct2, THEN conjunct1]
  show ?thesis unfolding b unfolding a by code_simp
qed

section \<open>Properties of the keystream cipher\<close>

lemma xorBytes_length: "length (xorBytes a b) = min (length a) (length b)"
  by (simp add: xorBytes_def)

lemma xorBytes_twice:
  "length a \<le> length b \<Longrightarrow> xorBytes (xorBytes a b) b = a"
proof (induction a arbitrary: b)
  case Nil
  then show ?case by (simp add: xorBytes_def)
next
  case (Cons x a)
  then obtain y b' where b: "b = y # b'" by (cases b) auto
  have "(x XOR y) XOR y = x" by (simp add: xor.assoc)
  then show ?case using Cons b by (simp add: xorBytes_def)
qed

lemma XORKeyStream_Nil: "XORKeyStream block ctr [] = []"
  by (simp add: XORKeyStream.simps)

lemma XORKeyStream_Cons:
  "src \<noteq> [] \<Longrightarrow> XORKeyStream block ctr src =
     xorBytes (take 16 src) (block ctr) @ XORKeyStream block (ctr_increment ctr) (drop 16 src)"
  by (subst XORKeyStream.simps) simp

lemma XORKeyStream_length:
  "(\<And>c. length (block c) = 16) \<Longrightarrow> length (XORKeyStream block ctr src) = length src"
proof (induction block ctr src rule: XORKeyStream.induct)
  case (1 block ctr src)
  have blk: "\<And>c. length (block c) = 16" by (rule "1.prems")
  show ?case
  proof (cases "src = []")
    case True
    then show ?thesis by (simp add: XORKeyStream_Nil)
  next
    case False
    have "length (XORKeyStream block (ctr_increment ctr) (drop 16 src)) = length src - 16"
      using "1.IH"[OF False blk] by simp
    moreover have "length (xorBytes (take 16 src) (block ctr)) = min (length src) 16"
      using blk[of ctr] by (simp add: xorBytes_length min_def)
    ultimately show ?thesis
      by (simp add: XORKeyStream_Cons[OF False])
  qed
qed

lemma XORKeyStream_involution:
  "(\<And>c. length (block c) = 16) \<Longrightarrow> XORKeyStream block ctr (XORKeyStream block ctr src) = src"
proof (induction block ctr src rule: XORKeyStream.induct)
  case (1 block ctr src)
  have blk: "\<And>c. length (block c) = 16" by (rule "1.prems")
  show ?case
  proof (cases "src = []")
    case True
    then show ?thesis by (simp add: XORKeyStream_Nil)
  next
    case False
    let ?a = "xorBytes (take 16 src) (block ctr)"
    let ?rest = "XORKeyStream block (ctr_increment ctr) (drop 16 src)"
    have la: "length ?a = min (length src) 16"
      using blk[of ctr] by (simp add: xorBytes_length min_def)
    have lr: "length ?rest = length src - 16"
      using XORKeyStream_length[of block "ctr_increment ctr" "drop 16 src", OF blk] by simp
    have "0 < length src" using False by simp
    then have "0 < length ?a" using la by simp
    then have ne: "?a @ ?rest \<noteq> []" by simp
    have tk: "take 16 (?a @ ?rest) = ?a"
    proof (cases "16 \<le> length src")
      case True
      then show ?thesis using la by simp
    next
      case False
      then have "?rest = []" using lr by simp
      then show ?thesis using la by simp
    qed
    have dr: "drop 16 (?a @ ?rest) = ?rest"
    proof (cases "16 \<le> length src")
      case True
      then show ?thesis using la by simp
    next
      case False
      then have "?rest = []" using lr by simp
      then show ?thesis using la by simp
    qed
    have twice: "xorBytes ?a (block ctr) = take 16 src"
      using blk[of ctr] by (intro xorBytes_twice) simp
    have "XORKeyStream block ctr (XORKeyStream block ctr src) = XORKeyStream block ctr (?a @ ?rest)"
      by (simp add: XORKeyStream_Cons[OF False])
    also have "\<dots> = xorBytes ?a (block ctr) @ XORKeyStream block (ctr_increment ctr) ?rest"
      by (simp only: XORKeyStream_Cons[OF ne] tk dr)
    also have "\<dots> = take 16 src @ drop 16 src"
      using "1.IH"[OF False blk] twice by simp
    finally show ?thesis by simp
  qed
qed

lemma copy_bytes_same_length: "length dst = length src \<Longrightarrow> copy_bytes dst src = src"
  by (simp add: copy_bytes_def)

lemma XorA256CTR_eq:
  assumes blk: "\<And>k c. length (enc k c) = 16"
  shows "XorA256CTR enc source key iv = XORKeyStream (enc key) iv source"
  using XORKeyStream_length[of "enc key" iv source, OF blk]
  by (simp add: XorA256CTR_def copy_bytes_same_length)

text \<open>
  Claim C3 (round-trip cipher): for every block cipher with 16-byte blocks, every 32-byte key,
  16-byte IV and message of any length, applying \<open>XorA256CTR\<close> twice with the same key and IV
  returns the message, and the output has the length of the input.
\<close>

theorem C3_ctr_roundtrip:
  assumes blk: "\<And>k c. length (enc k c) = 16"
    and "length k = 32" and "length iv = 16"
  shows "XorA256CTR enc (XorA256CTR enc m k iv) k iv = m
    \<and> length (XorA256CTR enc m k iv) = length m"
proof -
  have len: "length (XorA256CTR enc m k iv) = length m"
    using XORKeyStream_length[of "enc k" iv m, OF blk] by (simp add: XorA256CTR_eq[OF blk])
  have "XorA256CTR enc (XorA256CTR enc m k iv) k iv
      = XORKeyStream (enc k) iv (XORKeyStream (enc k) iv m)"
    by (simp add: XorA256CTR_eq[OF blk])
  also have "\<dots> = m"
    by (rule XORKeyStream_involution[of "enc k", OF blk])
  finally show ?thesis using len by simp
qed


theorem C3_ctr_roundtrip_witness:
  "XorA256CTR (\<lambda>k c. take 16 (map2 (\<lambda>x y. x + 3 * y) (k @ replicate 16 0) (c @ replicate 16 0)))
      [1,2,3,4,5,6,7,8,9,10,11,12,13,14,15,16,17,18,19,20] (map of_nat [0..<32]) (replicate 15 0xFF @ [0xFE])
     = [252, 252, 252, 4, 4, 4, 4, 12, 12, 12, 12, 4, 4, 4, 4, 25, 236, 236, 236, 20]
   \<and> XorA256CTR (\<lambda>k c. take 16 (map2 (\<lambda>x y. x + 3 * y) (k @ replicate 16 0) (c @ replicate 16 0)))
      (XorA256CTR (\<lambda>k c. take 16 (map2 (\<lambda>x y. x + 3 * y) (k @ replicate 16 0) (c @ replicate 16 0)))
        [1,2,3,4,5,6,7,8,9,10,11,12,13,14,15,16,17,18,19,20] (map of_nat [0..<32]) (replicate 15 0xFF @ [0xFE]))
      (map of_nat [0..<32]) (replicate 15 0xFF @ [0xFE])
     = [1,2,3,4,5,6,7,8,9,10,11,12,13,14,15,16,17,18,19,20]"
proof -
  let ?enc = "\<lambda>k c. take 16 (map2 (\<lambda>x y. x + 3 * y) (k @ replicate 16 0) (c @ replicate 16 (0 :: byte)))"
  have blk: "\<And>k c. length (?enc k c) = 16" by simp
  have k: "length (map of_nat [0..<32] :: byte list) = 32" by simp
  have iv: "length (replicate 15 0xFF @ [0xFE :: byte]) = 16" by simp
  have v: "XorA256CTR ?enc [1,2,3,4,5,6,7,8,9,10,11,12,13,14,15,16,17,18,19,20]
      (map of_nat [0..<32]) (replicate 15 0xFF @ [0xFE])
     = [252, 252, 252, 4, 4, 4, 4, 12, 12, 12, 12, 4, 4, 4, 4, 25, 236, 236, 236, 20]"
    by code_simp
  show ?thesis
    using C3_ctr_roundtrip[of ?enc, OF blk k iv, of "[1,2,3,4,5,6,7,8,9,10,11,12,13,14,15,16,17,18,19,20]"] v
    by simp
qed

section \<open>Properties of the generators\<close>

lemma Gen_bit: "\<not> bit ((x :: byte) AND 0x7F) 7"
proof
  assume "bit (x AND 0x7F) 7"
  then have "bit (0x7F :: byte) 7" unfolding bit_and_iff by (rule conjunct2)
  then show False by simp
qed

text \<open>
  Claim C8 (counter-field layout): whatever the random source returns, an IV produced by
  \<open>GenAttachmentA256CTR\<close> has 16 bytes of which bytes 8..15 are zero (the key has 32 bytes),
  and an IV produced by \<open>GenA256CTRIV\<close> has 16 bytes and bit 7 of byte 8 is cleared.
\<close>

theorem C8_iv_layout:
  "(GenAttachmentA256CTR read g = Inr ((key, iv), g') \<longrightarrow>
      length key = 32 \<and> length iv = 16 \<and> drop 8 iv = replicate 8 0)
   \<and> (GenA256CTRIV read g = Inr (iv2, g2) \<longrightarrow>
      length iv2 = 16 \<and> \<not> bit (iv2 ! 8) 7)"
proof (intro conjI impI)
  assume a: "GenAttachmentA256CTR read g = Inr ((key, iv), g')"
  obtain r1 g1 where r1: "read g 32 = (r1, g1)" by (cases "read g 32")
  obtain r2 g2' where r2: "read g1 8 = (r2, g2')" by (cases "read g1 8")
  from a r1 r2 obtain bs bs' where bs: "r1 = Some bs" "r2 = Some bs'"
    and key: "key = copy_bytes (replicate 32 0) bs"
    and iv: "iv = copy_bytes (replicate 8 0) bs' @ replicate 8 0"
    by (auto simp: GenAttachmentA256CTR_def AESCTRKeyLength_def AESCTRIVLength_def Let_def
        split: option.splits)
  show "length key = 32" by (simp add: key copy_bytes_def)
  have l8: "length (copy_bytes (replicate 8 (0::byte)) bs') = 8" by (simp add: copy_bytes_def)
  show "length iv = 16" using l8 by (simp add: iv)
  show "drop 8 iv = replicate 8 0" using l8 by (simp add: iv)
next
  assume a: "GenA256CTRIV read g = Inr (iv2, g2)"
  obtain r1 g1 where r1: "read g 16 = (r1, g1)" by (cases "read g 16")
  from a r1 obtain bs where iv: "iv2 = (copy_bytes (replicate 16 0) bs)[8 := copy_bytes (replicate 16 0) bs ! 8 AND 0x7F]"
    by (auto simp: GenA256CTRIV_def AESCTRIVLength_def Let_def split: option.splits)
  have l: "length (copy_bytes (replicate 16 (0::byte)) bs) = 16" by (simp add: copy_bytes_def)
  show "length iv2 = 16" using l by (simp add: iv)
  show "\<not> bit (iv2 ! 8) 7" using l by (simp add: iv Gen_bit)
qed

theorem C8_iv_layout_witness:
  "GenAttachmentA256CTR (\<lambda>g n. (Some (take n g), drop n g)) (replicate 64 (0xFF :: byte))
     = Inr ((replicate 32 0xFF, replicate 8 0xFF @ replicate 8 0), replicate 24 0xFF)
   \<and> drop 8 (replicate 8 0xFF @ replicate 8 (0 :: byte)) = replicate 8 0
   \<and> GenA256CTRIV (\<lambda>g n. (Some (take n g), drop n g)) (replicate 64 (0xFF :: byte))
     = Inr (replicate 8 0xFF @ [0x7F] @ replicate 7 0xFF, replicate 48 0xFF)
   \<and> \<not> bit ((replicate 8 0xFF @ [0x7F] @ replicate 7 (0xFF :: byte)) ! 8) 7"
proof -
  let ?read = "\<lambda>(g :: byte list) n. (Some (take n g), drop n g)"
  have a: "GenAttachmentA256CTR ?read (replicate 64 0xFF)
      = Inr ((replicate 32 0xFF, replicate 8 0xFF @ replicate 8 0), replicate 24 0xFF)"
    by code_simp
  have b: "GenA256CTRIV ?read (replicate 64 0xFF)
      = Inr (replicate 8 0xFF @ [0x7F] @ replicate 7 0xFF, replicate 48 0xFF)"
    by code_simp
  note t = C8_iv_layout[of ?read "replicate 64 0xFF" "replicate 32 0xFF"
      "replicate 8 0xFF @ replicate 8 0" "replicate 24 0xFF"
      "replicate 8 0xFF @ [0x7F] @ replicate 7 0xFF" "replicate 48 0xFF"]
  from t a have "drop 8 (replicate 8 0xFF @ replicate 8 (0 :: byte)) = replicate 8 0" by blast
  moreover from t b have "\<not> bit ((replicate 8 0xFF @ [0x7F] @ replicate 7 (0xFF :: byte)) ! 8) 7"
    by blast
  ultimately show ?thesis using a b by blast
qed


section \<open>Properties of the key derivation\<close>

lemma hkdf_fill_done: "hkdf_fill hmac f out 0 n = Some (f, out, n)"
  by (subst hkdf_fill.simps) simp

lemma hkdf_fill_one_block:
  assumes "length (hmac (hkdf_expander f) (hkdf_prev f @ hkdf_info f @ [hkdf_counter f])) = 32"
  shows "hkdf_fill hmac f out 32 n =
     Some (f\<lparr>hkdf_prev := hmac (hkdf_expander f) (hkdf_prev f @ hkdf_info f @ [hkdf_counter f]),
              hkdf_counter := hkdf_counter f + 1,
              hkdf_buf := hmac (hkdf_expander f) (hkdf_prev f @ hkdf_info f @ [hkdf_counter f])\<rparr>,
           out @ hmac (hkdf_expander f) (hkdf_prev f @ hkdf_info f @ [hkdf_counter f]), 32)"
  using assms by (subst hkdf_fill.simps) (simp add: Let_def hkdf_fill_done)

lemma hkdf_Read_one_block:
  assumes len: "length (hmac (hkdf_expander f) (hkdf_prev f @ hkdf_info f @ [hkdf_counter f])) = 32"
    and buf: "hkdf_buf f = []" and sz: "hkdf_size f = 32" and cnt: "hkdf_counter f \<noteq> 0"
    and p: "length p = 32"
  shows "hkdf_Read hmac f p =
     Some (f\<lparr>hkdf_prev := hmac (hkdf_expander f) (hkdf_prev f @ hkdf_info f @ [hkdf_counter f]),
              hkdf_counter := hkdf_counter f + 1,
              hkdf_buf := []\<rparr>,
           hmac (hkdf_expander f) (hkdf_prev f @ hkdf_info f @ [hkdf_counter f]), None)"
proof -
  have e: "255 - hkdf_counter f + 1 = 0 - hkdf_counter f" by simp
  have "0 - hkdf_counter f \<noteq> 0" using cnt by simp
  then have "255 - hkdf_counter f + 1 \<noteq> 0" unfolding e .
  then have "unat (255 - hkdf_counter f + 1) \<noteq> 0" by (simp only: unat_eq_0 not_False_eq_True)
  then have "1 \<le> unat (255 - hkdf_counter f + 1)" by simp
  then have enough: "\<not> 32 > unat (255 - hkdf_counter f + 1) * 32" by simp
  show ?thesis
    using enough len
    by (simp add: hkdf_Read_def Let_def buf sz p hkdf_fill_one_block[of hmac f, OF len])
qed

text \<open>
  Claim C6 (extract-and-expand derivation): for every secret and label, and every MAC with a
  32-byte output standing for HMAC-SHA256, \<open>DeriveKeysSHA256\<close> returns, and its result is the
  extract-and-expand scheme with the all-zero 32-byte salt and the label as info: the cipher key
  is the first 32 bytes of the 64 bytes of output key material and the MAC key is the next 32.
  The result is a function of the secret and the label alone, so equal inputs give equal keys.
\<close>

theorem C6_derive_keys_is_hkdf:
  assumes len: "\<And>k m. length (hmac k m) = 32"
  shows "DeriveKeysSHA256 hmac key name =
      Some (take 32 (hkdf_spec hmac 32 (replicate 32 0) key (string_bytes name) 64),
            take 32 (drop 32 (hkdf_spec hmac 32 (replicate 32 0) key (string_bytes name) 64)))
    \<and> length (hkdf_spec hmac 32 (replicate 32 0) key (string_bytes name) 64) = 64"
proof -
  let ?info = "string_bytes name"
  let ?prk = "hmac (replicate 32 0) key"
  let ?T1 = "hmac ?prk (?info @ [1])"
  let ?T2 = "hmac ?prk (?T1 @ ?info @ [2])"
  let ?f0 = "hkdf_New hmac 32 key (replicate 32 0) ?info"
  let ?f1 = "?f0\<lparr>hkdf_prev := ?T1, hkdf_counter := 2, hkdf_buf := []\<rparr>"
  have f0: "?f0 = \<lparr>hkdf_expander = ?prk, hkdf_size = 32, hkdf_info = ?info,
      hkdf_counter = 1, hkdf_prev = [], hkdf_buf = []\<rparr>"
    by (simp add: hkdf_New_def hkdf_Expand_def hkdf_Extract_def)
  have r1: "hkdf_Read hmac ?f0 (replicate 32 0) = Some (?f1, ?T1, None)"
    using hkdf_Read_one_block[of hmac ?f0 "replicate 32 0"] len by (simp add: f0)
  have r2: "hkdf_Read hmac ?f1 (replicate 32 0) =
      Some (?f1\<lparr>hkdf_prev := ?T2, hkdf_counter := 3, hkdf_buf := []\<rparr>, ?T2, None)"
    using hkdf_Read_one_block[of hmac ?f1 "replicate 32 0"] len by (simp add: f0)
  have d: "DeriveKeysSHA256 hmac key name = Some (?T1, ?T2)"
    by (simp add: DeriveKeysSHA256_def Let_def SHAHashLength_def AESCTRKeyLength_def
        HMACKeyLength_def r1 r2)
  have up: "[1 ..< Suc ((64 + 32 - 1) div 32)] = [1, 2]"
    by (simp add: upt_rec)
  have t1: "hkdf_T hmac ?prk ?info 1 = ?T1" by simp
  have t2: "hkdf_T hmac ?prk ?info 2 = ?T2"
    using t1 by (simp add: numeral_2_eq_2)
  have "hkdf_spec hmac 32 (replicate 32 0) key ?info 64
      = take 64 (hkdf_T hmac ?prk ?info 1 @ hkdf_T hmac ?prk ?info 2)"
    unfolding hkdf_spec_def up by simp
  then have okm: "hkdf_spec hmac 32 (replicate 32 0) key ?info 64 = ?T1 @ ?T2"
    unfolding t1 t2 using len by simp
  show ?thesis unfolding d okm using len by simp
qed

theorem C6_derive_keys_is_hkdf_witness:
  "DeriveKeysSHA256 (\<lambda>k m. take 32 (rev m @ k @ replicate 32 7)) [1, 2, 3] ''ab''
     = Some ([1, 98, 97, 3, 2, 1] @ replicate 26 0, [2, 98, 97] @ replicate 26 0 @ [1, 2, 3])"
proof -
  let ?hmac = "\<lambda>k m. take 32 (rev m @ k @ replicate 32 (7 :: byte))"
  have len: "\<And>k m. length (?hmac k m) = 32" by simp
  have okm: "hkdf_spec ?hmac 32 (replicate 32 0) [1, 2, 3] (string_bytes ''ab'') 64
      = [1, 98, 97, 3, 2, 1] @ replicate 26 0 @ [2, 98, 97] @ replicate 26 0 @ [1, 2, 3]"
    by code_simp
  have e: "DeriveKeysSHA256 ?hmac [1, 2, 3] ''ab''
      = Some (take 32 (hkdf_spec ?hmac 32 (replicate 32 0) [1, 2, 3] (string_bytes ''ab'') 64),
              take 32 (drop 32 (hkdf_spec ?hmac 32 (replicate 32 0) [1, 2, 3] (string_bytes ''ab'') 64)))"
    by (rule C6_derive_keys_is_hkdf[of ?hmac, OF len, THEN conjunct1])
  show ?thesis unfolding e okm by simp
qed


subsection \<open>Length of the password-derived key\<close>

lemma int64_in_range: "- (2 ^ 63) \<le> x \<Longrightarrow> x < 2 ^ 63 \<Longrightarrow> int64 x = x"
  by (simp add: int64_def)

lemma xor_into_length:
  "length U = length T \<Longrightarrow> \<exists>T'. xor_into T U = Inr T' \<and> length T' = length T"
  by (simp add: xor_into_def)

lemma go_div_nonneg: "0 \<le> a \<Longrightarrow> 0 < b \<Longrightarrow> go_div a b = a div b"
  by (cases "a = 0") (simp_all add: go_div_def)

lemma pbkdf2_iterate_returns:
  assumes len: "\<And>m. length (prf m) = length T"
    and n: "0 \<le> n" and iter: "iter < 2 ^ 63 - 1"
  shows "\<exists>T'. pbkdf2_iterate prf n iter U T = Some (Inr T') \<and> length T' = length T"
  using len n
proof (induction "nat (iter + 1 - n)" arbitrary: n U T rule: less_induct)
  case less
  have len: "\<And>m. length (prf m) = length T" by (rule less.prems(1))
  show ?case
  proof (cases "n \<le> iter")
    case True
    obtain T' where T': "xor_into T (prf U) = Inr T'" "length T' = length T"
      using xor_into_length[of "prf U" T] len by auto
    have wrap: "int64 (n + 1) = n + 1"
      using True iter less.prems(2) by (intro int64_in_range) simp_all
    have lt: "nat (iter + 1 - (n + 1)) < nat (iter + 1 - n)" using True by simp
    have len': "\<And>m. length (prf m) = length T'" using len T'(2) by simp
    have "\<exists>T''. pbkdf2_iterate prf (n + 1) iter (prf U) T' = Some (Inr T'') \<and> length T'' = length T'"
      using less.hyps[OF lt len'] less.prems(2) by simp
    then show ?thesis
      using True T' wrap by (subst pbkdf2_iterate.simps) (simp add: Let_def)
  next
    case False
    then show ?thesis by (subst pbkdf2_iterate.simps) simp
  qed
qed

lemma pbkdf2_blocks_returns:
  assumes len: "\<And>m. length (prf m) = 64"
    and iter: "iter < 2 ^ 63 - 1"
    and nb: "numBlocks < 2 ^ 63 - 1"
    and b0: "0 \<le> block" and b1: "block \<le> numBlocks + 1"
  shows "\<exists>dk'. pbkdf2_blocks prf salt iter 64 block numBlocks dk = Some (Inr dk')
      \<and> int (length dk') = int (length dk) + 64 * (numBlocks + 1 - block)"
  using b0 b1
proof (induction "nat (numBlocks + 1 - block)" arbitrary: block dk rule: less_induct)
  case less
  show ?case
  proof (cases "block \<le> numBlocks")
    case True
    let ?T = "prf (salt @ block_index_bytes block)"
    let ?dk1 = "dk @ ?T"
    have lT: "length ?T = 64" by (rule len)
    have sl: "go_slice ?dk1 (int (length ?dk1) - 64) (int (length ?dk1)) = Inr ?T"
      using lT by (simp add: go_slice_def)
    have U: "copy_bytes (replicate (nat 64) 0) ?T = ?T"
      using lT by (simp add: copy_bytes_def)
    have tk: "take (length ?dk1 - nat 64) ?dk1 = dk" using lT by simp
    have lenT: "\<And>m. length (prf m) = length ?T" using len lT by simp
    obtain T' where T': "pbkdf2_iterate prf 2 iter ?T ?T = Some (Inr T')" "length T' = 64"
      using pbkdf2_iterate_returns[of "prf" ?T 2 iter ?T, OF lenT _ iter] lT by auto
    have wrap: "int64 (block + 1) = block + 1"
      using True nb less.prems(1) by (intro int64_in_range) simp_all
    have lt: "nat (numBlocks + 1 - (block + 1)) < nat (numBlocks + 1 - block)"
      using True by simp
    obtain dk' where dk': "pbkdf2_blocks prf salt iter 64 (block + 1) numBlocks (dk @ T') = Some (Inr dk')"
      "int (length dk') = int (length (dk @ T')) + 64 * (numBlocks + 1 - (block + 1))"
      using less.hyps[OF lt, of "dk @ T'"] less.prems(1) True by auto
    have "pbkdf2_blocks prf salt iter 64 block numBlocks dk =
        (let dk1 = dk @ prf (salt @ block_index_bytes block) in
         case go_slice dk1 (int (length dk1) - 64) (int (length dk1)) of
           Inl e \<Rightarrow> Some (Inl e)
         | Inr T \<Rightarrow>
             (let U = copy_bytes (replicate (nat 64) 0) T in
              case pbkdf2_iterate prf 2 iter U T of
                None \<Rightarrow> None
              | Some (Inl e) \<Rightarrow> Some (Inl e)
              | Some (Inr T') \<Rightarrow>
                  pbkdf2_blocks prf salt iter 64 (int64 (block + 1)) numBlocks
                    (take (length dk1 - nat 64) dk1 @ T')))"
      by (subst pbkdf2_blocks.simps) (simp only: True if_True)
    then have "pbkdf2_blocks prf salt iter 64 block numBlocks dk = Some (Inr dk')"
      by (simp only: Let_def sl sum.case option.case U T'(1) tk wrap dk'(1))
    moreover have "int (length dk') = int (length dk) + 64 * (numBlocks + 1 - block)"
      using dk'(2) T'(2) by (simp add: algebra_simps)
    ultimately show ?thesis by blast
  next
    case False
    then have "block = numBlocks + 1" using less.prems(2) by simp
    then show ?thesis by (subst pbkdf2_blocks.simps) simp
  qed
qed

lemma pbkdf2_Key_returns:
  assumes len: "\<And>k m. length (hmac k m) = 64"
    and k0: "0 \<le> keyLen" and k1: "keyLen < 2 ^ 60"
    and iter: "iter < 2 ^ 63 - 1"
    and fits: "64 * ((keyLen + 63) div 64) \<le> maxAlloc"
  shows "\<exists>key. pbkdf2_Key maxAlloc hmac 64 password salt iter keyLen = Some (Inr key)
      \<and> int (length key) = keyLen"
proof -
  let ?n = "(keyLen + 63) div 64"
  have w1: "int64 (keyLen + 64) = keyLen + 64"
    using k0 k1 by (intro int64_in_range) simp_all
  have "keyLen + 64 - 1 = keyLen + 63" by simp
  moreover have "int64 (keyLen + 63) = keyLen + 63"
    using k0 k1 by (intro int64_in_range) simp_all
  ultimately have w2: "int64 (keyLen + 64 - 1) = keyLen + 63" by (simp only:)
  have nd: "go_div (keyLen + 63) 64 = ?n" using k0 by (simp add: go_div_nonneg)
  have n0: "0 \<le> ?n" using k0 by simp
  have n1: "?n < 2 ^ 54 + 1" using k1 by simp
  have w3: "int64 (?n * 64) = ?n * 64"
    using n0 n1 by (intro int64_in_range) simp_all
  have cover: "keyLen \<le> 64 * ?n"
  proof -
    have "keyLen + 63 = 64 * ?n + (keyLen + 63) mod 64" by simp
    moreover have "(keyLen + 63) mod 64 \<le> 63" by simp
    ultimately show ?thesis by linarith
  qed
  have nb: "?n < 2 ^ 63 - 1" using n1 by simp
  obtain dk where dk: "pbkdf2_blocks (hmac password) salt iter 64 1 ?n [] = Some (Inr dk)"
    "int (length dk) = 64 * ?n"
    using pbkdf2_blocks_returns[of "hmac password" iter ?n 1 salt "[]", OF len iter nb] n0 by auto
  have sl: "go_slice dk 0 keyLen = Inr (take (nat keyLen) dk)"
    using k0 cover dk(2) by (simp add: go_slice_def)
  have lk: "int (length (take (nat keyLen) dk)) = keyLen"
    using k0 cover dk(2) by simp
  have cap: "\<not> (?n * 64 < 0 \<or> maxAlloc < ?n * 64)" using n0 fits by simp
  have "pbkdf2_Key maxAlloc hmac 64 password salt iter keyLen = Some (Inr (take (nat keyLen) dk))"
    unfolding pbkdf2_Key_def Let_def w1 w2 nd w3 using cap dk(1) sl by simp
  then show ?thesis using lk by blast
qed

text \<open>
  Claim C9, as amended: for every password and salt, every MAC with a 64-byte output standing
  for HMAC-SHA512, every iteration count below the largest \<^verbatim>\<open>int\<close>, and every requested
  bit-length \<open>keyLenBits\<close> (a non-negative \<^verbatim>\<open>int\<close>) whose byte length, rounded up to whole
  64-byte blocks, is a capacity that \<^verbatim>\<open>make\<close> grants, \<open>PBKDF2SHA512\<close> returns, and the key has
  exactly \<open>keyLenBits div 8\<close> bytes.
\<close>

theorem C9_pbkdf2_length:
  assumes len: "\<And>k m. length (hmac k m) = 64"
    and bits: "0 \<le> sint keyLenBits"
    and iters: "sint iters < 2 ^ 63 - 1"
    and fits: "64 * ((sint keyLenBits div 8 + 63) div 64) \<le> maxAlloc"
  shows "\<exists>key. PBKDF2SHA512 maxAlloc hmac password salt iters keyLenBits = Some (Inr key)
      \<and> int (length key) = sint keyLenBits div 8"
proof -
  have d: "go_div (sint keyLenBits) 8 = sint keyLenBits div 8"
    using bits by (simp add: go_div_nonneg)
  have k0: "0 \<le> sint keyLenBits div 8" using bits by simp
  have "sint keyLenBits < 2 ^ 63" using sint_lt[of keyLenBits] by simp
  then have k1: "sint keyLenBits div 8 < 2 ^ 60" by simp
  show ?thesis
    unfolding PBKDF2SHA512_def d
    by (rule pbkdf2_Key_returns[OF len k0 k1 iters fits])
qed

theorem C9_pbkdf2_length_witness:
  "PBKDF2SHA512 (2 ^ 48) (\<lambda>k m. take 64 (rev m @ k @ replicate 64 7)) [1, 2] [3, 4] 3 560
     = Some (Inr (replicate 56 7 @ [2, 1, 3, 4, 0, 0, 0, 1] @ replicate 6 7))
   \<and> int (length (replicate 56 7 @ [2, 1, 3, 4, 0, 0, 0, 1 :: byte] @ replicate 6 7)) = 560 div 8"
proof -
  let ?hmac = "\<lambda>k m. take 64 (rev m @ k @ replicate 64 (7 :: byte))"
  have len: "\<And>k m. length (?hmac k m) = 64" by simp
  have v: "PBKDF2SHA512 (2 ^ 48) ?hmac [1, 2] [3, 4] 3 560
      = Some (Inr (replicate 56 7 @ [2, 1, 3, 4, 0, 0, 0, 1] @ replicate 6 7))"
    by code_simp
  have s1: "sint (560 :: 64 word) = 560" by simp
  have s2: "sint (3 :: 64 word) = 3" by simp
  have "\<exists>key. PBKDF2SHA512 (2 ^ 48) ?hmac [1, 2] [3, 4] 3 560 = Some (Inr key)
      \<and> int (length key) = sint (560 :: 64 word) div 8"
    by (rule C9_pbkdf2_length[of ?hmac 560 3 "2 ^ 48" "[1, 2]" "[3, 4]", OF len])
      (simp_all add: s1 s2)
  then show ?thesis using v s1 by auto
qed

text \<open>
  The loop over the iterations does not end when its bound is the largest \<^verbatim>\<open>int\<close>: the
  counter wraps around before it can pass the bound, so no call with that bound returns.
\<close>

lemma pbkdf2_iterate_never_returns:
  assumes ret: "pbkdf2_iterate mac n iter U T = Some r"
  shows "iter = 2 ^ 63 - 1 \<longrightarrow> n \<le> 2 ^ 63 - 1 \<longrightarrow> (\<forall>m. length (mac m) = length T) \<longrightarrow> False"
proof (rule pbkdf2_iterate.raw_induct[where P = "\<lambda>mac n iter U T r.
    iter = 2 ^ 63 - 1 \<longrightarrow> n \<le> 2 ^ 63 - 1 \<longrightarrow> (\<forall>m. length (mac m) = length T) \<longrightarrow> False", OF _ ret])
  fix f :: "(byte list \<Rightarrow> byte list) \<Rightarrow> int \<Rightarrow> int \<Rightarrow> byte list \<Rightarrow> byte list \<Rightarrow> (panic + byte list) option"
  fix mac n iter U T r
  assume IH: "\<And>mac n iter U T r. f mac n iter U T = Some r \<Longrightarrow>
      iter = 2 ^ 63 - 1 \<longrightarrow> n \<le> 2 ^ 63 - 1 \<longrightarrow> (\<forall>m. length (mac m) = length T) \<longrightarrow> False"
  assume body: "(if n \<le> iter
      then let U' = mac U
           in case xor_into T U' of Inl e \<Rightarrow> Some (Inl e)
              | Inr T' \<Rightarrow> f mac (int64 (n + 1)) iter U' T'
      else Some (Inr T)) = Some r"
  show "iter = 2 ^ 63 - 1 \<longrightarrow> n \<le> 2 ^ 63 - 1 \<longrightarrow> (\<forall>m. length (mac m) = length T) \<longrightarrow> False"
  proof (intro impI)
    assume iter: "iter = 2 ^ 63 - 1" and n: "n \<le> 2 ^ 63 - 1"
      and len: "\<forall>m. length (mac m) = length T"
    obtain T' where T': "xor_into T (mac U) = Inr T'" "length T' = length T"
      using xor_into_length[of "mac U" T] len by auto
    have le: "n \<le> iter" using iter n by simp
    have call: "f mac (int64 (n + 1)) iter (mac U) T' = Some r"
      using body le T'(1) by (simp add: Let_def)
    have "(n + 1 + 2 ^ 63) mod 2 ^ 64 < (2 ^ 64 :: int)" by simp
    then have bound: "int64 (n + 1) \<le> 2 ^ 63 - 1" by (simp add: int64_def)
    have len': "\<forall>m. length (mac m) = length T'" using len T'(2) by simp
    show False using IH[OF call] iter bound len' by blast
  qed
qed

lemma pbkdf2_blocks_never_returns:
  assumes len: "\<And>m. length (mac m) = 64"
  shows "pbkdf2_blocks mac salt (2 ^ 63 - 1) 64 1 1 [] = None"
proof -
  let ?T = "mac (salt @ block_index_bytes 1)"
  have lT: "length ?T = 64" by (rule len)
  have sl: "go_slice ([] @ ?T) (int (length ([] @ ?T)) - 64) (int (length ([] @ ?T))) = Inr ?T"
    using lT by (simp add: go_slice_def)
  have U: "copy_bytes (replicate (nat 64) 0) ?T = ?T"
    using lT by (simp add: copy_bytes_def)
  have "pbkdf2_iterate mac 2 (2 ^ 63 - 1) ?T ?T = None"
  proof (cases "pbkdf2_iterate mac 2 (2 ^ 63 - 1) ?T ?T")
    case None
    then show ?thesis .
  next
    case (Some r)
    then show ?thesis using pbkdf2_iterate_never_returns[OF Some] len lT by simp
  qed
  then show ?thesis
    by (subst pbkdf2_blocks.simps) (simp only: Let_def sl sum.case U option.case, simp)
qed

text \<open>
  Claim C9 as stated, for every iteration count and every requested bit-length, fails at the
  largest \<^verbatim>\<open>int\<close>. The bit-length \<open>2 ^ 63 - 1\<close> asks for \<open>2 ^ 60 - 1\<close> bytes, whose blocks
  are more than \<^verbatim>\<open>make\<close> grants (\<open>2 ^ 48\<close> bytes here), and the call panics. With the
  iteration count \<open>2 ^ 63 - 1\<close> the call does not return, even for a key of one byte.
\<close>

theorem C9_pbkdf2_limits_counterexample:
  "PBKDF2SHA512 (2 ^ 48) (\<lambda>k m. replicate 64 0) [] [] 1 0x7FFFFFFFFFFFFFFF
     = Some (Inl MakeSliceOutOfRange)
   \<and> PBKDF2SHA512 (2 ^ 48) (\<lambda>k m. replicate 64 0) [] [] 0x7FFFFFFFFFFFFFFF 8 = None"
proof -
  let ?hmac = "\<lambda>(k :: byte list) (m :: byte list). replicate 64 (0 :: byte)"
  have a: "PBKDF2SHA512 (2 ^ 48) ?hmac [] [] 1 0x7FFFFFFFFFFFFFFF = Some (Inl MakeSliceOutOfRange)"
    by code_simp
  have m: "sint (0x7FFFFFFFFFFFFFFF :: 64 word) = 2 ^ 63 - 1" by code_simp
  have n: "go_div (int64 (int64 (go_div (sint (8 :: 64 word)) 8 + 64) - 1)) 64 = 1" by code_simp
  have c: "int64 64 = 64" by code_simp
  have "pbkdf2_blocks (?hmac []) [] (2 ^ 63 - 1) 64 1 1 [] = None"
    by (rule pbkdf2_blocks_never_returns) simp
  then have b: "PBKDF2SHA512 (2 ^ 48) ?hmac [] [] 0x7FFFFFFFFFFFFFFF 8 = None"
    unfolding PBKDF2SHA512_def pbkdf2_Key_def Let_def m n by (simp add: c)
  show ?thesis using a b by blast
qed

end
